theory Spec2Isabelle
  imports Main "HOL-Library.AList" "HOL-Library.Sublist"
begin

section \<open>Python preliminaries\<close>

text \<open>
  The exceptions of Python's own hierarchy that the two modules can raise.
  \<open>KeyError\<close> is a subclass of \<open>LookupError\<close>; \<open>TypeError\<close> is not.
\<close>

datatype pyexn = KeyError string | TypeError

fun is_LookupError :: "pyexn \<Rightarrow> bool" where
  "is_LookupError (KeyError k) = True"
| "is_LookupError TypeError = False"

text \<open>
  A Python \<open>dict\<close> keeps its keys in insertion order and holds each key once: an
  association list, where storing under a key that is present replaces the value in place
  and storing under a new key appends.
\<close>

type_synonym 'v dict = "(string \<times> 'v) list"

definition dict_contains :: "'v dict \<Rightarrow> string \<Rightarrow> bool" where
  "dict_contains d k = (map_of d k \<noteq> None)"

definition dict_getitem :: "'v dict \<Rightarrow> string \<Rightarrow> pyexn + 'v" where
  "dict_getitem d k = (case map_of d k of None \<Rightarrow> Inl (KeyError k) | Some v \<Rightarrow> Inr v)"

definition dict_setitem :: "'v dict \<Rightarrow> string \<Rightarrow> 'v \<Rightarrow> 'v dict" where
  "dict_setitem d k v = AList.update k v d"

text \<open>
  \<open>str.partition(sep)\<close> for a one-character separator: the text before the first
  separator, the separator, and the text after it; without a separator the whole string
  and two empty strings.
\<close>

fun str_partition :: "char \<Rightarrow> string \<Rightarrow> string \<times> string \<times> string" where
  "str_partition sep [] = ([], [], [])"
| "str_partition sep (c # cs) =
     (if c = sep then ([], [sep], cs)
      else (case str_partition sep cs of (first, s, rest) \<Rightarrow> (c # first, s, rest)))"

lemma str_partition_rest_shorter:
  "str_partition sep key = (first, s, rest) \<Longrightarrow> rest \<noteq> [] \<Longrightarrow> length rest < length key"
  by (induction key arbitrary: first s rest) (auto split: if_splits prod.splits)


section \<open>schema.py: the validators\<close>

subsection \<open>Chunks, failures and results\<close>

text \<open>
  strictyaml hands a validator a chunk; the validators of \<open>schema.py\<close> read only its
  \<open>contents\<close>. \<open>chunk.expecting_but_found(context, found)\<close> raises a
  \<open>YAMLValidationError\<close> carrying both messages and the chunk.
\<close>

record chunk =
  contents :: string

datatype exn = YAMLValidationError string string chunk | PyExn pyexn

definition expecting_but_found :: "chunk \<Rightarrow> string \<Rightarrow> string \<Rightarrow> exn + 'a" where
  "expecting_but_found chunk context found = Inl (YAMLValidationError context found chunk)"

fun is_validation_failure :: "exn + 'a \<Rightarrow> bool" where
  "is_validation_failure (Inl (YAMLValidationError context found chunk)) = True"
| "is_validation_failure (Inl (PyExn e)) = False"
| "is_validation_failure (Inr r) = False"

text \<open>The classes \<open>int\<close>, \<open>str\<close> and \<open>float\<close>, which the \<open>Type\<close> validator returns.\<close>

datatype native_type = Py_int | Py_str | Py_float

datatype 'v pyvalue = Text string | NativeType native_type | Val 'v

text \<open>
  The validator classes. \<open>Literal\<close>, \<open>Type\<close>, \<open>First\<close> and \<open>Deprecated\<close> are the
  classes of \<open>schema.py\<close>; \<open>OrValidator\<close> is strictyaml's, which \<open>Choice\<close> folds over
  its literals; \<open>Extern\<close> stands for any other validator object: a function from the
  chunk to a value or an exception, together with the warnings it logs.
\<close>

datatype 'v validator =
    Literal string
  | Type
  | OrValidator "'v validator" "'v validator"
  | First string "'v validator list"
  | Deprecated string "'v validator"
  | Extern "chunk \<Rightarrow> (exn + 'v) \<times> string list"

text \<open>
  The \<open>YAML\<close> object a validator returns: the validated value and the two attributes
  \<open>_selected_validator\<close> and \<open>_validator\<close> that \<open>First\<close> assigns.
\<close>

record 'v YAML =
  data :: "'v pyvalue"
  selected_validator :: "'v validator option"
  validator :: "'v validator option"

subsection \<open>Literal and Type\<close>

definition Literal_validate_scalar :: "string \<Rightarrow> chunk \<Rightarrow> exn + string" where
  "Literal_validate_scalar expected chunk =
     (if expected \<noteq> contents chunk
      then expecting_but_found chunk (''when expecting '' @ expected) ''found non-matching string''
      else Inr (contents chunk))"

text \<open>
  The part of Python's \<open>re\<close> that \<open>Type.scalar_regex\<close> uses: a pattern is a sequence of
  items, an item is \<open>^\<close>, \<open>$\<close>, literal characters or a group of alternatives. The
  matcher returns every position at which a match starting at position \<open>i\<close> can end, so
  that an alternative that leads nowhere is backtracked. Without \<open>re.MULTILINE\<close>,
  \<open>^\<close> matches at position 0 only, and \<open>$\<close> matches at the end of the string and also
  just before a newline that is the last character.
\<close>

datatype item = Caret | Dollar | Chars string | Group "item list list"

fun m_item :: "item \<Rightarrow> string \<Rightarrow> nat \<Rightarrow> nat list"
and m_seq :: "item list \<Rightarrow> string \<Rightarrow> nat \<Rightarrow> nat list"
and m_alts :: "item list list \<Rightarrow> string \<Rightarrow> nat \<Rightarrow> nat list"
where
  "m_item Caret s i = (if i = 0 then [i] else [])"
| "m_item Dollar s i =
     (if i = length s \<or> (Suc i = length s \<and> s ! i = CHR 0x0A) then [i] else [])"
| "m_item (Chars w) s i = (if take (length w) (drop i s) = w then [i + length w] else [])"
| "m_item (Group alts) s i = m_alts alts s i"
| "m_seq [] s i = [i]"
| "m_seq (x # xs) s i = concat (map (\<lambda>j. m_seq xs s j) (m_item x s i))"
| "m_alts [] s i = []"
| "m_alts (a # as) s i = m_seq a s i @ m_alts as s i"

text \<open>\<open>pattern.match(s)\<close>: a match that starts at position 0.\<close>

definition re_match :: "item list \<Rightarrow> string \<Rightarrow> bool" where
  "re_match pattern s = (m_seq pattern s 0 \<noteq> [])"

text \<open>\<open>re.compile('^(int|integer|str|string|float|floating|double)$')\<close>\<close>

definition scalar_regex :: "item list" where
  "scalar_regex =
     [Caret,
      Group [[Chars ''int''], [Chars ''integer''], [Chars ''str''], [Chars ''string''],
             [Chars ''float''], [Chars ''floating''], [Chars ''double'']],
      Dollar]"

definition scalar_map :: "native_type dict" where
  "scalar_map =
     [(''int'', Py_int), (''integer'', Py_int),
      (''str'', Py_str), (''string'', Py_str),
      (''float'', Py_float), (''floating'', Py_float), (''double'', Py_float)]"

definition Type_validate_scalar :: "chunk \<Rightarrow> exn + native_type" where
  "Type_validate_scalar chunk =
     (if re_match scalar_regex (contents chunk)
      then (case dict_getitem scalar_map (contents chunk) of
              Inl e \<Rightarrow> Inl (PyExn e)
            | Inr t \<Rightarrow> Inr t)
      else expecting_but_found chunk ''when expecting a valid type description''
             ''found invalid input'')"

subsection \<open>Calling a validator\<close>

text \<open>
  \<open>call v chunk\<close> is \<open>v(chunk)\<close>: the \<open>YAML\<close> object or the exception raised, and the
  messages passed to \<open>log.warning\<close> meanwhile, in the order they were logged.

  A scalar validator (\<open>Literal\<close>, \<open>Type\<close>) wraps what its \<open>validate_scalar\<close> returns
  into a \<open>YAML\<close> object whose \<open>_validator\<close> is the validator itself.
  \<open>OrValidator(a, b)\<close> is strictyaml's: it calls \<open>a\<close>, and \<open>b\<close> when \<open>a\<close> raised a
  \<open>YAMLValidationError\<close>.
  \<open>Deprecated.__call__\<close> logs its message and then calls the inner validator.
  \<open>First.__call__\<close> is the loop \<open>First_loop\<close> over \<open>self._validators\<close>: its
  \<open>except\<close> clause catches a \<open>YAMLValidationError\<close> only, and the \<open>else\<close> branch of
  the \<open>for\<close> raises the aggregate failure.
\<close>

fun call :: "'v validator \<Rightarrow> chunk \<Rightarrow> (exn + 'v YAML) \<times> string list"
and First_loop ::
  "'v validator \<Rightarrow> string \<Rightarrow> 'v validator list \<Rightarrow> chunk \<Rightarrow> (exn + 'v YAML) \<times> string list"
where
  "call (Literal expected) chunk =
     (case Literal_validate_scalar expected chunk of
        Inl e \<Rightarrow> (Inl e, [])
      | Inr v \<Rightarrow>
          (Inr \<lparr>data = Text v, selected_validator = None,
                validator = Some (Literal expected)\<rparr>, []))"
| "call Type chunk =
     (case Type_validate_scalar chunk of
        Inl e \<Rightarrow> (Inl e, [])
      | Inr t \<Rightarrow>
          (Inr \<lparr>data = NativeType t, selected_validator = None, validator = Some Type\<rparr>, []))"
| "call (OrValidator a b) chunk =
     (case call a chunk of
        (Inr result, w) \<Rightarrow>
          (Inr (result\<lparr>selected_validator := validator result,
                       validator := Some (OrValidator a b)\<rparr>), w)
      | (Inl (YAMLValidationError _ _ _), w) \<Rightarrow>
          (case call b chunk of
             (Inr result, w') \<Rightarrow>
               (Inr (result\<lparr>selected_validator := validator result,
                            validator := Some (OrValidator a b)\<rparr>), w @ w')
           | (Inl e, w') \<Rightarrow> (Inl e, w @ w'))
      | (Inl (PyExn e), w) \<Rightarrow> (Inl (PyExn e), w))"
| "call (First name validators) chunk =
     First_loop (First name validators) name validators chunk"
| "call (Deprecated message inner) chunk =
     (case call inner chunk of (result, w) \<Rightarrow> (result, message # w))"
| "call (Extern f) chunk =
     (case f chunk of
        (Inl e, w) \<Rightarrow> (Inl e, w)
      | (Inr v, w) \<Rightarrow>
          (Inr \<lparr>data = Val v, selected_validator = None, validator = Some (Extern f)\<rparr>, w))"
| "First_loop self name [] chunk =
     (Inl (YAMLValidationError (''failed to find a valid schema for '' @ name)
             ''found invalid input'' chunk), [])"
| "First_loop self name (v # vs) chunk =
     (case call v chunk of
        (Inr result, w) \<Rightarrow>
          (Inr (result\<lparr>selected_validator := Some v, validator := Some self\<rparr>), w)
      | (Inl (YAMLValidationError _ _ _), w) \<Rightarrow>
          (case First_loop self name vs chunk of (res, w') \<Rightarrow> (res, w @ w'))
      | (Inl (PyExn e), w) \<Rightarrow> (Inl (PyExn e), w))"

text \<open>
  \<open>Choice(*args)\<close> is \<open>reduce(OrValidator, map(Literal, args))\<close>; \<open>reduce\<close> over an
  empty sequence without an initial value raises \<open>TypeError\<close>.
\<close>

definition Choice :: "string list \<Rightarrow> pyexn + 'v validator" where
  "Choice args =
     (case map Literal args of
        [] \<Rightarrow> Inl TypeError
      | l # ls \<Rightarrow> Inr (foldl OrValidator l ls))"


section \<open>util.py: NestedDict\<close>

text \<open>
  The values a \<open>NestedDict\<close> holds: a sub-tree is a value that is itself a
  \<open>NestedDict\<close> (\<open>isinstance(val, NestedDict)\<close>), anything else is a leaf. The leaves are
  numbers, strings and other objects (\<open>PyObj\<close>: type objects such as \<open>int\<close> or
  \<open>list\<close>, typing aliases such as \<open>typing.List[int]\<close>, tuples, \<open>None\<close>, ...), none
  of which supports item assignment. The argument of \<open>NestedDict\<close> is the underlying
  \<open>dict\<close>, which the methods reach through \<open>super()\<close>.

  What \<open>rest in obj\<close> and \<open>obj[rest]\<close> give for such an object depends on the object:
  a tuple answers the membership test where \<open>'b' in int\<close> raises \<open>TypeError\<close>, and
  \<open>list['b']\<close> is an alias object where \<open>int['b']\<close> raises \<open>TypeError\<close>. The two
  operations are therefore arguments of the methods that use them: \<open>obj_contains a rest\<close>
  is \<open>rest in a\<close> and \<open>obj_getitem a rest\<close> is \<open>a[rest]\<close>.
\<close>

datatype 'a pyval = PyInt int | PyStr string | PyObj 'a | NestedDict "(string \<times> 'a pyval) list"

text \<open>
  \<open>NestedDict.__contains__\<close>. \<open>rest in super().__getitem__(first)\<close> dispatches on the
  value found: a \<open>NestedDict\<close> recurses, a string tests for a substring, a number is not
  iterable and raises \<open>TypeError\<close>, and another object answers for itself.
\<close>

function contains ::
  "('a \<Rightarrow> string \<Rightarrow> pyexn + bool) \<Rightarrow> 'a pyval dict \<Rightarrow> string \<Rightarrow> pyexn + bool" where
  "contains obj_contains self key =
     (case str_partition CHR ''/'' key of (first, _, rest) \<Rightarrow>
        if rest \<noteq> [] then
          (if dict_contains self first then
             (case dict_getitem self first of
                Inl e \<Rightarrow> Inl e
              | Inr (NestedDict sub) \<Rightarrow> contains obj_contains sub rest
              | Inr (PyStr s) \<Rightarrow> Inr (sublist rest s)
              | Inr (PyInt n) \<Rightarrow> Inl TypeError
              | Inr (PyObj a) \<Rightarrow> obj_contains a rest)
           else Inr False)
        else Inr (dict_contains self first))"
  by pat_completeness auto
termination
  by (relation "measure (\<lambda>(obj_contains, self, key). length key)")
     (auto dest: str_partition_rest_shorter[OF sym])

text \<open>
  \<open>NestedDict.__getitem__\<close>. \<open>super().__getitem__(first)[rest]\<close> dispatches on the value
  found: a \<open>NestedDict\<close> recurses, a number is not subscriptable and a string takes no
  string index (both raise \<open>TypeError\<close>), and another object answers for itself.
\<close>

function getitem ::
  "('a \<Rightarrow> string \<Rightarrow> pyexn + 'a pyval) \<Rightarrow> 'a pyval dict \<Rightarrow> string \<Rightarrow> pyexn + 'a pyval" where
  "getitem obj_getitem self key =
     (case str_partition CHR ''/'' key of (first, _, rest) \<Rightarrow>
        if rest \<noteq> [] then
          (case dict_getitem self first of
             Inl e \<Rightarrow> Inl e
           | Inr (NestedDict sub) \<Rightarrow> getitem obj_getitem sub rest
           | Inr (PyInt n) \<Rightarrow> Inl TypeError
           | Inr (PyStr s) \<Rightarrow> Inl TypeError
           | Inr (PyObj a) \<Rightarrow> obj_getitem a rest)
        else dict_getitem self first)"
  by pat_completeness auto
termination
  by (relation "measure (\<lambda>(obj_getitem, self, key). length key)")
     (auto dest: str_partition_rest_shorter[OF sym])

text \<open>
  \<open>rest in v\<close> and \<open>v[rest]\<close> for any value \<open>v\<close>, a \<open>NestedDict\<close> or a leaf: the
  dispatch of the two methods above, by itself.
\<close>

fun py_contains :: "('a \<Rightarrow> string \<Rightarrow> pyexn + bool) \<Rightarrow> 'a pyval \<Rightarrow> string \<Rightarrow> pyexn + bool" where
  "py_contains obj_contains (NestedDict d) rest = contains obj_contains d rest"
| "py_contains obj_contains (PyStr s) rest = Inr (sublist rest s)"
| "py_contains obj_contains (PyInt n) rest = Inl TypeError"
| "py_contains obj_contains (PyObj a) rest = obj_contains a rest"

fun py_getitem ::
  "('a \<Rightarrow> string \<Rightarrow> pyexn + 'a pyval) \<Rightarrow> 'a pyval \<Rightarrow> string \<Rightarrow> pyexn + 'a pyval" where
  "py_getitem obj_getitem (NestedDict d) k = getitem obj_getitem d k"
| "py_getitem obj_getitem (PyInt n) k = Inl TypeError"
| "py_getitem obj_getitem (PyStr s) k = Inl TypeError"
| "py_getitem obj_getitem (PyObj a) k = obj_getitem a k"

text \<open>
  Objects that are neither iterable nor subscriptable, such as \<open>None\<close>, \<open>int\<close> or
  \<open>float\<close>: both operations raise \<open>TypeError\<close>.
\<close>

definition not_iterable :: "'a \<Rightarrow> string \<Rightarrow> pyexn + bool" where
  "not_iterable obj rest = Inl TypeError"

definition not_subscriptable :: "'a \<Rightarrow> string \<Rightarrow> pyexn + 'a pyval" where
  "not_subscriptable obj rest = Inl TypeError"

text \<open>
  \<open>NestedDict.__setitem__\<close> mutates the dictionary in place; the model returns the
  dictionary as it is afterwards together with the exception raised, if any. The sub-tree
  under \<open>first\<close> is the same object before and after the inner assignment, so it keeps its
  place among the keys. Item assignment on a leaf (a number or a string) raises
  \<open>TypeError\<close>. Note that the last branch stores under \<open>key\<close>, not under \<open>first\<close>.
\<close>

function setitem :: "'a pyval dict \<Rightarrow> string \<Rightarrow> 'a pyval \<Rightarrow> 'a pyval dict \<times> pyexn option" where
  "setitem self key v =
     (case str_partition CHR ''/'' key of (first, _, rest) \<Rightarrow>
        if rest \<noteq> [] then
          (let self1 = (if \<not> dict_contains self first
                        then dict_setitem self first (NestedDict []) else self)
           in case dict_getitem self1 first of
                Inl e \<Rightarrow> (self1, Some e)
              | Inr (NestedDict sub) \<Rightarrow>
                  (case setitem sub rest v of
                     (sub', e) \<Rightarrow> (dict_setitem self1 first (NestedDict sub'), e))
              | Inr _ \<Rightarrow> (self1, Some TypeError))
        else (dict_setitem self key v, None))"
  by pat_completeness auto
termination
  by (relation "measure (\<lambda>(self, key, v). length key)")
     (auto dest: str_partition_rest_shorter[OF sym])

text \<open>The three generators \<open>keys\<close>, \<open>values\<close> and \<open>items\<close>, as the lists they yield.\<close>

fun keys :: "'a pyval dict \<Rightarrow> string list" where
  "keys [] = []"
| "keys ((key, NestedDict sub) # kvs) =
     map (\<lambda>subkey. key @ ''/'' @ subkey) (keys sub) @ keys kvs"
| "keys ((key, val) # kvs) = key # keys kvs"

fun values_of :: "'a pyval dict \<Rightarrow> 'a pyval list" where
  "values_of [] = []"
| "values_of ((key, NestedDict sub) # kvs) = values_of sub @ values_of kvs"
| "values_of ((key, val) # kvs) = val # values_of kvs"

fun items :: "'a pyval dict \<Rightarrow> (string \<times> 'a pyval) list" where
  "items [] = []"
| "items ((key, NestedDict sub) # kvs) =
     map (\<lambda>(subkey, subval). (key @ ''/'' @ subkey, subval)) (items sub) @ items kvs"
| "items ((key, val) # kvs) = (key, val) # items kvs"


text \<open>A run of assignments \<open>d[p] = v\<close>, which stops at the first exception.\<close>

fun setitems ::
  "'a pyval dict \<Rightarrow> (string \<times> 'a pyval) list \<Rightarrow> 'a pyval dict \<times> pyexn option" where
  "setitems self [] = (self, None)"
| "setitems self ((key, v) # ops) =
     (case setitem self key v of
        (self', None) \<Rightarrow> setitems self' ops
      | (self', Some e) \<Rightarrow> (self', Some e))"


section \<open>util.py: struct\_as\_dict\<close>

text \<open>
  A numpy record (\<open>np.void\<close> or \<open>ma.mvoid\<close>) is the list of its fields in the order of
  \<open>array.dtype.fields\<close>. A \<open>field\<close> is what \<open>array[k]\<close> reads as: the constant
  \<open>masked\<close> (the one instance of \<open>MaskedConstant\<close>), a record when the field is itself
  structured, or any other data (a scalar, an array, a masked array). Which of the three a
  field of a masked record reads as is the matter of \<open>mvoid_getitem\<close> below.
\<close>

datatype 'd field = MaskedConstant | Void "(string \<times> 'd field) list" | Data 'd

text \<open>
  The leaves of the type template: a \<open>typing.List[...]\<close> alias, for which
  \<open>get_origin\<close> returns \<open>list\<close>, or a callable such as \<open>int\<close> or \<open>float\<close>, which
  converts the data or raises.
\<close>

datatype ('d, 'r) tydesc = ListAlias | Callable "'d \<Rightarrow> pyexn + 'r"

text \<open>The plain nested \<open>dict\<close> that \<open>struct_as_dict\<close> returns.\<close>

datatype ('d, 'r) plain = Dict "(string \<times> ('d, 'r) plain) list" | Raw 'd | Converted 'r

fun get_origin_is_list :: "('d, 'r) tydesc pyval \<Rightarrow> bool" where
  "get_origin_is_list (PyObj ListAlias) = True"
| "get_origin_is_list v = False"

text \<open>\<open>types[k](array[k])\<close>: only a callable can be called.\<close>

fun py_call :: "('d, 'r) tydesc pyval \<Rightarrow> 'd \<Rightarrow> pyexn + 'r" where
  "py_call (PyObj (Callable f)) x = f x"
| "py_call v x = Inl TypeError"

text \<open>
  The loop of \<open>struct_as_dict\<close> over the remaining fields, with \<open>retval\<close> as built so
  far; \<open>struct_as_dict\<close> starts it on all fields with the empty dictionary. \<open>types[k]\<close>
  is \<open>py_getitem\<close>, whatever \<open>types\<close> is.
\<close>

fun struct_as_dict_loop ::
  "(('d, 'r) tydesc \<Rightarrow> string \<Rightarrow> pyexn + ('d, 'r) tydesc pyval) \<Rightarrow> (string \<times> 'd field) list
     \<Rightarrow> ('d, 'r) tydesc pyval \<Rightarrow> ('d, 'r) plain dict \<Rightarrow> pyexn + ('d, 'r) plain dict" where
  "struct_as_dict_loop obj_getitem [] types retval = Inr retval"
| "struct_as_dict_loop obj_getitem ((k, MaskedConstant) # fs) types retval = Inr retval"
| "struct_as_dict_loop obj_getitem ((k, Void sub) # fs) types retval =
     (case py_getitem obj_getitem types k of
        Inl e \<Rightarrow> Inl e
      | Inr t \<Rightarrow>
          (case struct_as_dict_loop obj_getitem sub t [] of
             Inl e \<Rightarrow> Inl e
           | Inr subdata \<Rightarrow>
               struct_as_dict_loop obj_getitem fs types (dict_setitem retval k (Dict subdata))))"
| "struct_as_dict_loop obj_getitem ((k, Data x) # fs) types retval =
     (case py_getitem obj_getitem types k of
        Inl e \<Rightarrow> Inl e
      | Inr t \<Rightarrow>
          if get_origin_is_list t
          then struct_as_dict_loop obj_getitem fs types (dict_setitem retval k (Raw x))
          else (case py_call t x of
                  Inl e \<Rightarrow> Inl e
                | Inr y \<Rightarrow>
                    struct_as_dict_loop obj_getitem fs types
                      (dict_setitem retval k (Converted y))))"

definition struct_as_dict ::
  "(('d, 'r) tydesc \<Rightarrow> string \<Rightarrow> pyexn + ('d, 'r) tydesc pyval) \<Rightarrow> (string \<times> 'd field) list
     \<Rightarrow> ('d, 'r) tydesc pyval \<Rightarrow> pyexn + ('d, 'r) plain dict" where
  "struct_as_dict obj_getitem array types = struct_as_dict_loop obj_getitem array types []"

subsection \<open>Reading the fields of a masked record\<close>

text \<open>
  A field of a masked record as numpy stores it, data and mask side by side: a scalar
  with its mask bit, a sub-array (a field declared with a shape) with one mask bit per
  element, or a nested record whose fields are stored in the same way.
\<close>

datatype 'e cell =
  Scalar 'e bool | SubArray "'e list" "bool list" | Record "(string \<times> 'e cell) list"

text \<open>The data read from a field: a scalar, an array, or a masked array.\<close>

datatype 'e npvalue = Item 'e | Array "'e list" | MaskedArray "'e list" "bool list"

text \<open>
  \<open>np.void.__getitem__\<close>, the read of a field from the data alone: it is how
  \<open>ma.mvoid\<close> reads \<open>self._data[indx]\<close>, and how the fields of a nested record, which
  is returned as a plain \<open>np.void\<close>, are read in the recursive call.
\<close>

fun void_getitem :: "'e cell \<Rightarrow> 'e npvalue field" where
  "void_getitem (Scalar x m) = Data (Item x)"
| "void_getitem (SubArray xs ms) = Data (Array xs)"
| "void_getitem (Record fs) = Void (map (\<lambda>(k, c). (k, void_getitem c)) fs)"

text \<open>
  The truth value of the mask of a field, \<open>m[indx]\<close>: the bit of a scalar; for the mask
  of a nested record, a record of bits, true when any of its bits is set.
\<close>

fun any_masked :: "'e cell \<Rightarrow> bool" where
  "any_masked (Scalar x m) = m"
| "any_masked (SubArray xs ms) = list_ex (\<lambda>m. m) ms"
| "any_masked (Record fs) = list_ex (\<lambda>(k, c). any_masked c) fs"

text \<open>
  \<open>ma.mvoid.__getitem__\<close>. When the mask of the field is an array, which is the case of
  a sub-array field, the result is a masked array of the data and the mask, whatever the
  mask holds. Otherwise the result is \<open>masked\<close> when the mask of the field is true, and
  the data of the field when it is not.
\<close>

fun mvoid_getitem :: "'e cell \<Rightarrow> 'e npvalue field" where
  "mvoid_getitem (SubArray xs ms) = Data (MaskedArray xs ms)"
| "mvoid_getitem (Scalar x m) = (if any_masked (Scalar x m) then MaskedConstant
                                 else void_getitem (Scalar x m))"
| "mvoid_getitem (Record fs) = (if any_masked (Record fs) then MaskedConstant
                                else void_getitem (Record fs))"

text \<open>A masked record (\<open>ma.mvoid\<close>) as \<open>struct_as_dict\<close> reads it, field by field.\<close>

definition mvoid :: "(string \<times> 'e cell) list \<Rightarrow> (string \<times> 'e npvalue field) list" where
  "mvoid cells = map (\<lambda>(k, c). (k, mvoid_getitem c)) cells"

text \<open>
  \<open>has_data\<close>, the sibling of \<open>struct_as_dict\<close>, on a field: \<open>array.count() > 0\<close>
  counts the elements that are not masked, and a structured field has data when one of
  its fields has. A field without data is one that the mask marks fully absent.
\<close>

fun has_data :: "'e cell \<Rightarrow> bool" where
  "has_data (Scalar x m) = (\<not> m)"
| "has_data (SubArray xs ms) = list_ex (\<lambda>m. \<not> m) ms"
| "has_data (Record fs) = list_ex (\<lambda>(k, c). has_data c) fs"

text \<open>
  A callable of the template for an integer field: it converts a scalar to an \<open>int\<close> and
  raises \<open>TypeError\<close> when given an array.
\<close>

fun scalar_to_int :: "int npvalue \<Rightarrow> pyexn + int" where
  "scalar_to_int (Item n) = Inr n"
| "scalar_to_int v = Inl TypeError"

text \<open>
  A template matches the fields read from a record when the loop finds, for every field
  it visits, an entry of the template that it can use: a sub-template that matches for a
  nested record, and a list alias or a callable that accepts the data otherwise.
\<close>

fun matches ::
  "(('d, 'r) tydesc \<Rightarrow> string \<Rightarrow> pyexn + ('d, 'r) tydesc pyval) \<Rightarrow> (string \<times> 'd field) list
     \<Rightarrow> ('d, 'r) tydesc pyval \<Rightarrow> bool" where
  "matches obj_getitem [] types = True"
| "matches obj_getitem ((k, MaskedConstant) # fs) types = True"
| "matches obj_getitem ((k, Void sub) # fs) types =
     (case py_getitem obj_getitem types k of
        Inl e \<Rightarrow> False
      | Inr t \<Rightarrow> matches obj_getitem sub t \<and> matches obj_getitem fs types)"
| "matches obj_getitem ((k, Data x) # fs) types =
     (case py_getitem obj_getitem types k of
        Inl e \<Rightarrow> False
      | Inr t \<Rightarrow>
          (get_origin_is_list t \<or> (case py_call t x of Inl e \<Rightarrow> False | Inr y \<Rightarrow> True))
          \<and> matches obj_getitem fs types)"


section \<open>Paths as sequences of segments\<close>

text \<open>
  The notions the statements about \<open>NestedDict\<close> are phrased in. \<open>segments p\<close> is
  \<open>p.split('/')\<close>, and \<open>join\<close> puts the separators back.
\<close>

fun segments :: "string \<Rightarrow> string list" where
  "segments [] = [[]]"
| "segments (c # cs) =
     (if c = CHR ''/'' then [] # segments cs
      else (case segments cs of [] \<Rightarrow> [[c]] | s # ss \<Rightarrow> (c # s) # ss))"

fun join :: "string list \<Rightarrow> string" where
  "join [] = []"
| "join [s] = s"
| "join (s # ss) = s @ ''/'' @ join ss"

definition ends_with_slash :: "string \<Rightarrow> bool" where
  "ends_with_slash p = (p \<noteq> [] \<and> last p = CHR ''/'')"

fun is_leaf :: "'a pyval \<Rightarrow> bool" where
  "is_leaf (NestedDict d) = False"
| "is_leaf v = True"

text \<open>
  Resolving a path segment by segment through the sub-trees: the walk finds a value, or
  meets a sub-tree that lacks the next segment, or meets a leaf while segments remain.
\<close>

datatype 'a outcome = Found "'a pyval" | Absent string | AtLeaf "'a pyval" "string list"

fun resolve :: "'a pyval dict \<Rightarrow> string list \<Rightarrow> 'a outcome" where
  "resolve d [] = Found (NestedDict d)"
| "resolve d [s] = (case map_of d s of None \<Rightarrow> Absent s | Some v \<Rightarrow> Found v)"
| "resolve d (s # ss) =
     (case map_of d s of
        None \<Rightarrow> Absent s
      | Some (NestedDict sub) \<Rightarrow> resolve sub ss
      | Some leaf \<Rightarrow> AtLeaf leaf ss)"

text \<open>
  The order of first appearance, and the child segments that a list of paths has below
  the node reached by the segments \<open>c\<close>: one entry per path that passes through the node.
\<close>

definition firsts :: "'b list \<Rightarrow> 'b list" where
  "firsts xs = rev (remdups (rev xs))"

definition nexts :: "string list \<Rightarrow> string list \<Rightarrow> string list" where
  "nexts c ps = map (\<lambda>p. segments p ! length c) (filter (\<lambda>p. strict_prefix c (segments p)) ps)"

text \<open>The value most recently assigned to each path by a run of assignments.\<close>

definition last_set :: "(string \<times> 'a pyval) list \<Rightarrow> string \<Rightarrow> 'a pyval option" where
  "last_set ops = map_of (rev ops)"

text \<open>No key twice in any node of the tree.\<close>

fun distinct_keys :: "'a pyval dict \<Rightarrow> bool" where
  "distinct_keys [] = True"
| "distinct_keys ((k, NestedDict sub) # kvs) =
     (k \<notin> fst ` set kvs \<and> distinct_keys sub \<and> distinct_keys kvs)"
| "distinct_keys ((k, v) # kvs) = (k \<notin> fst ` set kvs \<and> distinct_keys kvs)"


subsection \<open>Runs of assignments\<close>

text \<open>
  The two parts of a path that the methods work with: its first segment and what follows
  the first separator.
\<close>

definition first_seg :: "string \<Rightarrow> string" where
  "first_seg p = fst (str_partition CHR ''/'' p)"

definition rest_of :: "string \<Rightarrow> string" where
  "rest_of p = snd (snd (str_partition CHR ''/'' p))"

text \<open>
  The paths of \<open>ps\<close> that begin with the segment \<open>s\<close>, each without that segment; and
  the same for a run of assignments, which keeps the values.
\<close>

definition tails :: "string \<Rightarrow> string list \<Rightarrow> string list" where
  "tails s ps = map rest_of (filter (\<lambda>p. first_seg p = s) ps)"

definition rests :: "string \<Rightarrow> (string \<times> 'v) list \<Rightarrow> (string \<times> 'v) list" where
  "rests s ops = map (\<lambda>(p, v). (rest_of p, v)) (filter (\<lambda>(p, v). first_seg p = s) ops)"

lemma part_eq:
  "str_partition CHR ''/'' p = (first_seg p, fst (snd (str_partition CHR ''/'' p)), rest_of p)"
  by (simp add: first_seg_def rest_of_def)

lemma rest_of_shorter: "rest_of p \<noteq> [] \<Longrightarrow> length (rest_of p) < length p"
  using str_partition_rest_shorter[OF part_eq[of p]] .

lemma tails_smaller:
  "[] \<notin> set (tails s ps) \<Longrightarrow> sum_list (map length (tails s ps)) \<le> sum_list (map length ps)"
proof (induction ps)
  case Nil
  show ?case by (simp add: tails_def)
next
  case (Cons p ps)
  from Cons.prems have "[] \<notin> set (tails s ps)" by (auto simp: tails_def)
  from Cons.IH[OF this] Cons.prems rest_of_shorter[of p] show ?case
    by (auto simp: tails_def)
qed

lemma tails_strictly_smaller:
  "s \<in> set (map first_seg ps) \<Longrightarrow> [] \<notin> set (tails s ps) \<Longrightarrow>
   sum_list (map length (tails s ps)) < sum_list (map length ps)"
proof (induction ps)
  case Nil
  then show ?case by simp
next
  case (Cons p ps)
  from Cons.prems(2) have n: "[] \<notin> set (tails s ps)" by (auto simp: tails_def)
  show ?case
  proof (cases "first_seg p = s")
    case True
    with Cons.prems(2) have "rest_of p \<noteq> []" by (auto simp: tails_def)
    from rest_of_shorter[OF this] tails_smaller[OF n] True show ?thesis
      by (simp add: tails_def)
  next
    case False
    with Cons.prems(1) have "s \<in> set (map first_seg ps)" by simp
    from Cons.IH[OF this n] False show ?thesis by (simp add: tails_def)
  qed
qed

text \<open>
  The tree order of a list of paths: the paths are grouped by their first segment, the
  groups come in the order in which their segments first appear, a path that is just the
  segment makes a group of its own, and the paths of any other group are in the tree
  order of what follows the segment.
\<close>

function tree_order :: "string list \<Rightarrow> string list" where
  "tree_order ps =
     concat (map (\<lambda>s. if [] \<in> set (tails s ps) then [s]
                      else map (\<lambda>k. s @ ''/'' @ k) (tree_order (tails s ps)))
                 (firsts (map first_seg ps)))"
  by pat_completeness auto
termination
  by (relation "measure (\<lambda>ps. sum_list (map length ps))")
     (auto simp: tails_strictly_smaller firsts_def simp del: set_map)

declare tree_order.simps [simp del]

text \<open>
  The runs of assignments considered below: every value is a leaf, no path ends in
  \<open>/\<close>, and no path runs through another, that is, no path followed by \<open>/\<close> is the
  beginning of a path of the run.
\<close>

definition good :: "(string \<times> 'a pyval) list \<Rightarrow> bool" where
  "good ops \<longleftrightarrow>
     (\<forall>(p, v)\<in>set ops. \<not> ends_with_slash p \<and> is_leaf v) \<and>
     (\<forall>p\<in>fst ` set ops. \<forall>q\<in>fst ` set ops. \<not> prefix (p @ ''/'') q)"

text \<open>
  The dictionary \<open>d\<close> represents the run \<open>ops\<close>: its keys are the first segments of the
  paths in the order of first appearance; under a segment that is a path of the run it
  holds the value last assigned to that path; and under any other segment it holds a
  sub-tree that represents the assignments below that segment.
\<close>

fun rep_entries :: "'a pyval dict \<Rightarrow> (string \<times> 'a pyval) list \<Rightarrow> bool" where
  "rep_entries [] ops = True"
| "rep_entries ((s, NestedDict sub) # kvs) ops =
     ([] \<notin> fst ` set (rests s ops)
      \<and> map fst sub = firsts (map (first_seg \<circ> fst) (rests s ops))
      \<and> rep_entries sub (rests s ops) \<and> rep_entries kvs ops)"
| "rep_entries ((s, leaf) # kvs) ops =
     (fst ` set (rests s ops) \<subseteq> {[]} \<and> last_set (rests s ops) [] = Some leaf
      \<and> rep_entries kvs ops)"

definition rep :: "'a pyval dict \<Rightarrow> (string \<times> 'a pyval) list \<Rightarrow> bool" where
  "rep d ops \<longleftrightarrow> map fst d = firsts (map (first_seg \<circ> fst) ops) \<and> rep_entries d ops"


text \<open>
  The three methods are unfolded one call at a time, through the lemmas
  \<open>contains_unfold\<close>, \<open>getitem_unfold\<close> and \<open>setitem_unfold\<close> below.
\<close>

declare contains.simps [simp del] getitem.simps [simp del] setitem.simps [simp del]


section \<open>Properties of the validators\<close>

subsection \<open>Deprecated\<close>

text \<open>
  C1 (as stated): \<open>Deprecated(msg, R)(x)\<close> succeeds iff \<open>R(x)\<close> succeeds, with the same
  value, and the warning is logged once per successful match and never on a failed one.
  The second half does not hold: \<open>__call__\<close> logs before it calls the inner validator.
  Here the inner \<open>Literal('true')\<close> fails on the text \<open>yes\<close>, and the warning has been
  logged all the same.
\<close>

theorem Deprecated_warns_on_failed_match:
  "fst (call (Deprecated ''capture-output is deprecated (now always on)'' (Literal ''true''))
          \<lparr>contents = ''yes''\<rparr>)
     = Inl (YAMLValidationError ''when expecting true'' ''found non-matching string''
              \<lparr>contents = ''yes''\<rparr>)
   \<and> snd (call (Deprecated ''capture-output is deprecated (now always on)'' (Literal ''true''))
            \<lparr>contents = ''yes''\<rparr>)
     = [''capture-output is deprecated (now always on)'']"
  by (simp add: Literal_validate_scalar_def expecting_but_found_def)

text \<open>
  C1 (amended): \<open>Deprecated(msg, R)(x)\<close> returns or raises exactly what \<open>R(x)\<close> does,
  so it succeeds iff \<open>R(x)\<close> succeeds, with the identical result; and it logs \<open>msg\<close>
  exactly once on every call, before anything the inner validator logs, whether the match
  succeeds or fails.
\<close>

theorem Deprecated_transparent_and_warns_once:
  "fst (call (Deprecated message inner) chunk) = fst (call inner chunk)
   \<and> snd (call (Deprecated message inner) chunk) = message # snd (call inner chunk)"
  by (simp split: prod.splits)

subsection \<open>First\<close>

lemma validation_failure_cases:
  assumes "is_validation_failure (fst (call v x))"
  obtains c f ch w where "call v x = (Inl (YAMLValidationError c f ch), w)"
  using assms
  by (cases "call v x"; cases "fst (call v x)") (auto elim: is_validation_failure.elims)

lemma First_loop_all_fail:
  "\<forall>v\<in>set vs. is_validation_failure (fst (call v x)) \<Longrightarrow>
   First_loop self name vs x =
     (Inl (YAMLValidationError (''failed to find a valid schema for '' @ name)
             ''found invalid input'' x),
      concat (map (\<lambda>v. snd (call v x)) vs))"
proof (induction vs)
  case Nil
  then show ?case by simp
next
  case (Cons v vs)
  from Cons.prems have "is_validation_failure (fst (call v x))" by simp
  then obtain c f ch w where "call v x = (Inl (YAMLValidationError c f ch), w)"
    by (rule validation_failure_cases)
  with Cons show ?case by simp
qed

lemma First_loop_first_success:
  "\<forall>v\<in>set pre. is_validation_failure (fst (call v x)) \<Longrightarrow> fst (call R x) = Inr r \<Longrightarrow>
   First_loop self name (pre @ R # post) x =
     (Inr (r\<lparr>selected_validator := Some R, validator := Some self\<rparr>),
      concat (map (\<lambda>v. snd (call v x)) pre) @ snd (call R x))"
proof (induction pre)
  case Nil
  then show ?case by (cases "call R x") simp
next
  case (Cons v vs)
  from Cons.prems have "is_validation_failure (fst (call v x))" by simp
  then obtain c f ch w where "call v x = (Inl (YAMLValidationError c f ch), w)"
    by (rule validation_failure_cases)
  with Cons show ?case by simp
qed

lemma First_loop_not_caught:
  "\<forall>v\<in>set pre. is_validation_failure (fst (call v x)) \<Longrightarrow> fst (call R x) = Inl (PyExn e) \<Longrightarrow>
   First_loop self name (pre @ R # post) x =
     (Inl (PyExn e), concat (map (\<lambda>v. snd (call v x)) pre) @ snd (call R x))"
proof (induction pre)
  case Nil
  then show ?case by (cases "call R x") simp
next
  case (Cons v vs)
  from Cons.prems have "is_validation_failure (fst (call v x))" by simp
  then obtain c f ch w where "call v x = (Inl (YAMLValidationError c f ch), w)"
    by (rule validation_failure_cases)
  with Cons show ?case by simp
qed

text \<open>
  C2 (as stated): \<open>First(name, R1..Rn)(x)\<close> returns the result of the first sub-rule that
  succeeds on \<open>x\<close>, and raises the one aggregate failure, never a failure of a sub-rule,
  when no sub-rule succeeds. The loop catches \<open>YAMLValidationError\<close> only. On the text
  \<open>int\<close> followed by a newline, \<open>Literal('int')\<close> and \<open>Type()\<close> both fail, the second
  with a \<open>KeyError\<close>, and \<open>First('t', Literal('int'), Type())\<close> raises that \<open>KeyError\<close>
  and not the aggregate failure. With \<open>Type()\<close> placed first and followed by the literal
  of that very text, the literal succeeds on its own, but the \<open>First\<close> raises the
  \<open>KeyError\<close> of \<open>Type()\<close> and the literal is never tried.
\<close>

theorem First_raises_sub_rule_KeyError:
  "fst (call (Literal ''int'') \<lparr>contents = ''int'' @ [CHR 0x0A]\<rparr>)
     = Inl (YAMLValidationError ''when expecting int'' ''found non-matching string''
              \<lparr>contents = ''int'' @ [CHR 0x0A]\<rparr>)
   \<and> fst (call Type \<lparr>contents = ''int'' @ [CHR 0x0A]\<rparr>)
     = Inl (PyExn (KeyError (''int'' @ [CHR 0x0A])))
   \<and> fst (call (First ''t'' [Literal ''int'', Type]) \<lparr>contents = ''int'' @ [CHR 0x0A]\<rparr>)
     = Inl (PyExn (KeyError (''int'' @ [CHR 0x0A])))
   \<and> fst (call (Literal (''int'' @ [CHR 0x0A])) \<lparr>contents = ''int'' @ [CHR 0x0A]\<rparr>)
     = Inr \<lparr>data = Text (''int'' @ [CHR 0x0A]), selected_validator = None,
             validator = Some (Literal (''int'' @ [CHR 0x0A]))\<rparr>
   \<and> fst (call (First ''t'' [Type, Literal (''int'' @ [CHR 0x0A])])
             \<lparr>contents = ''int'' @ [CHR 0x0A]\<rparr>)
     = Inl (PyExn (KeyError (''int'' @ [CHR 0x0A])))"
  by (simp add: Literal_validate_scalar_def Type_validate_scalar_def re_match_def
        scalar_regex_def dict_getitem_def scalar_map_def expecting_but_found_def)

text \<open>
  C2 (amended): \<open>First(name, R1..Rn)(x)\<close> tries the sub-rules in the order given, where a
  sub-rule fails when it raises a validation failure (\<open>YAMLValidationError\<close>). When the
  sub-rules before \<open>R\<close> all fail on \<open>x\<close> and \<open>R\<close> succeeds, the call returns the result
  of \<open>R\<close> (with \<open>_selected_validator\<close> set to \<open>R\<close> and \<open>_validator\<close> to the
  \<open>First\<close>), and only the sub-rules up to \<open>R\<close> have run: the warnings logged are
  theirs, in order. When every sub-rule fails on \<open>x\<close>, the call raises the one failure
  "failed to find a valid schema for name", whatever the sub-failures were. When the
  sub-rules before \<open>R\<close> all fail and \<open>R\<close> raises an exception that is not a validation
  failure, that exception is not caught: the call raises it, and the later sub-rules are
  not tried.
\<close>

theorem First_first_success_or_aggregate:
  "((\<forall>v\<in>set pre. is_validation_failure (fst (call v x))) \<and> fst (call R x) = Inr r \<longrightarrow>
      call (First name (pre @ R # post)) x =
        (Inr (r\<lparr>selected_validator := Some R,
                 validator := Some (First name (pre @ R # post))\<rparr>),
         concat (map (\<lambda>v. snd (call v x)) pre) @ snd (call R x)))
   \<and> ((\<forall>v\<in>set validators. is_validation_failure (fst (call v x))) \<longrightarrow>
      fst (call (First name validators) x) =
        Inl (YAMLValidationError (''failed to find a valid schema for '' @ name)
               ''found invalid input'' x))
   \<and> ((\<forall>v\<in>set pre. is_validation_failure (fst (call v x))) \<and> fst (call R x) = Inl (PyExn e) \<longrightarrow>
      call (First name (pre @ R # post)) x =
        (Inl (PyExn e), concat (map (\<lambda>v. snd (call v x)) pre) @ snd (call R x)))"
  by (simp add: First_loop_all_fail First_loop_first_success First_loop_not_caught)

theorem First_first_success_or_aggregate_witness:
  "call (First ''capture'' [Literal ''first'', Literal ''last'', Literal ''all''])
        \<lparr>contents = ''last''\<rparr>
     = (Inr \<lparr>data = Text ''last'', selected_validator = Some (Literal ''last''),
             validator = Some (First ''capture''
                                [Literal ''first'', Literal ''last'', Literal ''all''])\<rparr>, [])
   \<and> fst (call (First ''capture'' [Literal ''first'', Literal ''last'', Literal ''all''])
             \<lparr>contents = ''none''\<rparr>)
     = Inl (YAMLValidationError ''failed to find a valid schema for capture''
              ''found invalid input'' \<lparr>contents = ''none''\<rparr>)
   \<and> call (First ''kind'' [Literal ''str'', Type, Literal ''any''])
          \<lparr>contents = ''float'' @ [CHR 0x0A]\<rparr>
     = (Inl (PyExn (KeyError (''float'' @ [CHR 0x0A]))), [])"
proof -
  let ?ok = "\<lparr>contents = ''last''\<rparr>" and ?bad = "\<lparr>contents = ''none''\<rparr>"
  let ?nl = "\<lparr>contents = ''float'' @ [CHR 0x0A]\<rparr>"
  let ?r = "\<lparr>data = Text ''last'', selected_validator = None,
             validator = Some (Literal ''last'')\<rparr>"
  let ?e = "KeyError (''float'' @ [CHR 0x0A])"
  have pre: "\<forall>v\<in>set [Literal ''first'']. is_validation_failure (fst (call v ?ok))"
    by (simp add: Literal_validate_scalar_def expecting_but_found_def)
  have hit: "fst (call (Literal ''last'') ?ok) = Inr ?r"
    by (simp add: Literal_validate_scalar_def)
  have none: "\<forall>v\<in>set [Literal ''first'', Literal ''last'', Literal ''all''].
                 is_validation_failure (fst (call v ?bad))"
    by (simp add: Literal_validate_scalar_def expecting_but_found_def)
  have pre': "\<forall>v\<in>set [Literal ''str'']. is_validation_failure (fst (call v ?nl))"
    by (simp add: Literal_validate_scalar_def expecting_but_found_def)
  have exn: "call Type ?nl = (Inl (PyExn ?e), [])"
    by (simp add: Type_validate_scalar_def re_match_def scalar_regex_def dict_getitem_def
          scalar_map_def expecting_but_found_def)
  from First_first_success_or_aggregate
         [of "[Literal ''first'']" ?ok "Literal ''last''" ?r "''capture''" "[Literal ''all'']"
             "[Literal ''first'', Literal ''last'', Literal ''all'']" ?e]
       First_first_success_or_aggregate
         [of "[]" ?bad "Literal ''last''" ?r "''capture''" "[]"
             "[Literal ''first'', Literal ''last'', Literal ''all'']" ?e]
       First_first_success_or_aggregate
         [of "[Literal ''str'']" ?nl Type ?r "''kind''" "[Literal ''any'']" "[]" ?e]
       pre hit none pre' exn
  show ?thesis
    by (simp add: Literal_validate_scalar_def Type_validate_scalar_def re_match_def
          scalar_regex_def dict_getitem_def scalar_map_def expecting_but_found_def)
qed

subsection \<open>Literal and Choice\<close>

lemma fold_OrValidator_no_literal:
  "contents c \<notin> set (a # as) \<Longrightarrow>
   \<exists>context found. call (foldl OrValidator (Literal a) (map Literal as) :: 'v validator) c
            = (Inl (YAMLValidationError context found c), [])"
proof (induction as rule: rev_induct)
  case Nil
  then show ?case by (auto simp: Literal_validate_scalar_def expecting_but_found_def)
next
  case (snoc b bs)
  let ?V = "foldl OrValidator (Literal a) (map Literal bs) :: 'v validator"
  from snoc obtain ctx f where "call ?V c = (Inl (YAMLValidationError ctx f c), [])"
    by auto
  moreover from snoc.prems have "contents c \<noteq> b" by auto
  ultimately show ?case
    by (simp add: Literal_validate_scalar_def expecting_but_found_def)
qed

lemma fold_OrValidator_some_literal:
  "contents c \<in> set (a # as) \<Longrightarrow>
   \<exists>r. call (foldl OrValidator (Literal a) (map Literal as) :: 'v validator) c = (Inr r, [])
        \<and> data r = Text (contents c)"
proof (induction as rule: rev_induct)
  case Nil
  then show ?case by (auto simp: Literal_validate_scalar_def expecting_but_found_def)
next
  case (snoc b bs)
  let ?V = "foldl OrValidator (Literal a) (map Literal bs) :: 'v validator"
  show ?case
  proof (cases "contents c \<in> set (a # bs)")
    case True
    with snoc.IH obtain r where "call ?V c = (Inr r, [])" "data r = Text (contents c)"
      by blast
    then show ?thesis by simp
  next
    case False
    with snoc.prems have b: "contents c = b" by auto
    from fold_OrValidator_no_literal[OF False] obtain ctx f where
      "call ?V c = (Inl (YAMLValidationError ctx f c), [])"
      by blast
    with b show ?thesis
      by (simp add: Literal_validate_scalar_def expecting_but_found_def)
  qed
qed

text \<open>
  C3: \<open>Literal(expected)\<close> validates a token iff its text equals \<open>expected\<close>, by plain
  string equality, and then returns the text as it is; \<open>Choice(L)(t)\<close> succeeds iff
  \<open>t\<close> is one of the strings of \<open>L\<close>, and its value is then the text of the token.
\<close>

theorem Literal_Choice_accept_exactly:
  "(Literal_validate_scalar expected c = Inr t \<longleftrightarrow> contents c = expected \<and> t = contents c)
   \<and> ((\<exists>V r w. Choice L = Inr (V :: 'v validator) \<and> call V c = (Inr r, w))
        \<longleftrightarrow> contents c \<in> set L)
   \<and> (\<forall>V r w. Choice L = Inr (V :: 'v validator) \<and> call V c = (Inr r, w)
        \<longrightarrow> data r = Text (contents c))"
proof (intro conjI)
  show "Literal_validate_scalar expected c = Inr t \<longleftrightarrow> contents c = expected \<and> t = contents c"
    by (auto simp: Literal_validate_scalar_def expecting_but_found_def)
next
  show "(\<exists>V r w. Choice L = Inr (V :: 'v validator) \<and> call V c = (Inr r, w))
          \<longleftrightarrow> contents c \<in> set L"
  proof (cases L)
    case Nil
    then show ?thesis by (simp add: Choice_def)
  next
    case (Cons a as)
    let ?V = "foldl OrValidator (Literal a) (map Literal as) :: 'v validator"
    have V: "Choice L = Inr ?V" using Cons by (simp add: Choice_def)
    show ?thesis
    proof (cases "contents c \<in> set L")
      case True
      with Cons fold_OrValidator_some_literal[where 'v='v, of c a as] V show ?thesis by auto
    next
      case False
      with Cons fold_OrValidator_no_literal[where 'v='v, of c a as] V show ?thesis by auto
    qed
  qed
next
  show "\<forall>V r w. Choice L = Inr (V :: 'v validator) \<and> call V c = (Inr r, w)
          \<longrightarrow> data r = Text (contents c)"
  proof (cases L)
    case Nil
    then show ?thesis by (simp add: Choice_def)
  next
    case (Cons a as)
    let ?V = "foldl OrValidator (Literal a) (map Literal as) :: 'v validator"
    have V: "Choice L = Inr ?V" using Cons by (simp add: Choice_def)
    show ?thesis
    proof (cases "contents c \<in> set L")
      case True
      with Cons fold_OrValidator_some_literal[where 'v='v, of c a as] V show ?thesis by auto
    next
      case False
      with Cons fold_OrValidator_no_literal[where 'v='v, of c a as] V show ?thesis by auto
    qed
  qed
qed

theorem Literal_Choice_accept_exactly_witness:
  "Choice [''simple'', ''glob'']
     = Inr (OrValidator (Literal ''simple'') (Literal ''glob'') :: unit validator)
   \<and> fst (call (OrValidator (Literal ''simple'') (Literal ''glob'') :: unit validator)
             \<lparr>contents = ''glob''\<rparr>)
     = Inr \<lparr>data = Text ''glob'', selected_validator = Some (Literal ''glob''),
            validator = Some (OrValidator (Literal ''simple'') (Literal ''glob''))\<rparr>
   \<and> data \<lparr>data = Text ''glob'', selected_validator = Some (Literal ''glob''),
            validator = Some (OrValidator (Literal ''simple'') (Literal ''glob'')
                                :: unit validator)\<rparr>
     = Text (contents \<lparr>contents = ''glob''\<rparr>)"
  using Literal_Choice_accept_exactly
          [of "''glob''" "\<lparr>contents = ''glob''\<rparr>" "''glob''" "[''simple'', ''glob'']"]
  by (simp add: Choice_def Literal_validate_scalar_def expecting_but_found_def)

subsection \<open>Type\<close>

lemma chars_dollar:
  "(m_seq [Chars w, Dollar] s 0 \<noteq> []) \<longleftrightarrow> (s = w \<or> s = w @ [CHR 0x0A])"
proof -
  have a: "take (length w) s = w \<Longrightarrow> length w = length s \<Longrightarrow> s = w"
    by (metis take_all_iff order_refl)
  have b: "take (length w) s = w \<Longrightarrow> Suc (length w) = length s \<Longrightarrow> s ! length w = c
           \<Longrightarrow> s = w @ [c]" for c
    by (metis lessI take_Suc_conv_app_nth take_all_iff order_refl)
  show ?thesis
    by (auto simp: nth_append dest: a b)
qed

lemma group_dollar:
  "(m_seq [Group (map (\<lambda>w. [Chars w]) ws), Dollar] s 0 \<noteq> []) \<longleftrightarrow>
   (\<exists>w\<in>set ws. m_seq [Chars w, Dollar] s 0 \<noteq> [])"
  by (induction ws) auto

lemma caret_start: "m_seq (Caret # xs) s 0 = m_seq xs s 0"
  by simp

text \<open>
  What the pattern matches: the seven names, and each of them followed by one newline.
\<close>

lemma scalar_regex_match:
  "re_match scalar_regex s \<longleftrightarrow>
     s \<in> set (map fst scalar_map) \<or> (\<exists>n\<in>set (map fst scalar_map). s = n @ [CHR 0x0A])"
proof -
  have eq: "scalar_regex = [Caret, Group (map (\<lambda>w. [Chars w]) (map fst scalar_map)), Dollar]"
    by (simp add: scalar_regex_def scalar_map_def)
  have "re_match scalar_regex s \<longleftrightarrow>
      (m_seq [Group (map (\<lambda>w. [Chars w]) (map fst scalar_map)), Dollar] s 0 \<noteq> [])"
    unfolding re_match_def eq caret_start ..
  also have "\<dots> \<longleftrightarrow> (\<exists>w\<in>set (map fst scalar_map). s = w \<or> s = w @ [CHR 0x0A])"
    unfolding group_dollar chars_dollar ..
  finally show ?thesis by blast
qed

text \<open>
  The validator succeeds on exactly the seven names, with the type the table gives:
  \<open>int\<close> for \<open>int\<close> and \<open>integer\<close>, \<open>str\<close> for \<open>str\<close> and \<open>string\<close>, \<open>float\<close> for
  \<open>float\<close>, \<open>floating\<close> and \<open>double\<close>.
\<close>

lemma Type_succeeds_iff:
  "Type_validate_scalar c = Inr t \<longleftrightarrow> (contents c, t) \<in> set scalar_map"
proof
  assume "Type_validate_scalar c = Inr t"
  then have "map_of scalar_map (contents c) = Some t"
    by (auto simp: Type_validate_scalar_def dict_getitem_def expecting_but_found_def
             split: if_splits option.splits)
  then show "(contents c, t) \<in> set scalar_map" by (rule map_of_SomeD)
next
  assume a: "(contents c, t) \<in> set scalar_map"
  then have "contents c \<in> set (map fst scalar_map)" by force
  then have "re_match scalar_regex (contents c)" by (simp add: scalar_regex_match)
  moreover have "distinct (map fst scalar_map)" by (simp add: scalar_map_def)
  with a have "map_of scalar_map (contents c) = Some t" by simp
  ultimately show "Type_validate_scalar c = Inr t"
    by (simp add: Type_validate_scalar_def dict_getitem_def)
qed

text \<open>Any text the pattern does not match is rejected with a validation failure.\<close>

lemma Type_rejects:
  "s \<notin> set (map fst scalar_map) \<Longrightarrow>
   \<not> (\<exists>n\<in>set (map fst scalar_map). s = n @ [CHR 0x0A]) \<Longrightarrow>
   Type_validate_scalar \<lparr>contents = s\<rparr> =
     Inl (YAMLValidationError ''when expecting a valid type description''
            ''found invalid input'' \<lparr>contents = s\<rparr>)"
  by (simp add: Type_validate_scalar_def scalar_regex_match expecting_but_found_def del: set_map)

text \<open>
  C4: the type validator accepts the seven names and rejects every other string. The
  pattern ends in \<open>$\<close>, which also matches before a final newline, so the text
  \<open>int\<close> followed by a newline passes the pattern; the table has no such key, and the
  lookup raises \<open>KeyError\<close> where every other unknown text is rejected through
  \<open>expecting_but_found\<close>.
\<close>

theorem Type_trailing_newline_KeyError:
  "Type_validate_scalar \<lparr>contents = ''int'' @ [CHR 0x0A]\<rparr>
     = Inl (PyExn (KeyError (''int'' @ [CHR 0x0A])))
   \<and> Type_validate_scalar \<lparr>contents = ''Int''\<rparr>
     = Inl (YAMLValidationError ''when expecting a valid type description''
              ''found invalid input'' \<lparr>contents = ''Int''\<rparr>)"
  by (simp add: Type_validate_scalar_def re_match_def scalar_regex_def dict_getitem_def
        scalar_map_def expecting_but_found_def)


section \<open>Properties of NestedDict\<close>

subsection \<open>Paths and their segments\<close>

lemma segments_nonempty: "segments p \<noteq> []"
  by (induction p) (simp_all split: list.splits)

lemma segments_partition:
  "str_partition CHR ''/'' p = (f, sep, rest) \<Longrightarrow>
   segments p = (if sep = [] then [f] else f # segments rest)"
proof (induction p arbitrary: f sep rest)
  case Nil
  then show ?case by simp
next
  case (Cons c cs)
  show ?case
  proof (cases "c = CHR ''/''")
    case True
    with Cons.prems have "f = []" "sep = ''/''" "rest = cs" by simp_all
    with True show ?thesis by simp
  next
    case False
    obtain f' sep' rest' where p: "str_partition CHR ''/'' cs = (f', sep', rest')"
      by (cases "str_partition CHR ''/'' cs")
    from Cons.prems False p have eq: "f = c # f'" "sep = sep'" "rest = rest'" by simp_all
    have IH: "segments cs = (if sep' = [] then [f'] else f' # segments rest')"
      by (rule Cons.IH[OF p])
    show ?thesis
    proof (cases "sep' = []")
      case True
      with IH False show ?thesis unfolding eq by simp
    next
      case False2: False
      with IH False show ?thesis unfolding eq by simp
    qed
  qed
qed

lemma partition_wf:
  "\<not> ends_with_slash p \<Longrightarrow> str_partition CHR ''/'' p = (f, sep, rest) \<Longrightarrow>
   (sep = [] \<longleftrightarrow> rest = []) \<and> \<not> ends_with_slash rest"
proof (induction p arbitrary: f sep rest)
  case Nil
  then show ?case by (simp add: ends_with_slash_def)
next
  case (Cons c cs)
  show ?case
  proof (cases "c = CHR ''/''")
    case True
    with Cons.prems have eq: "sep = [c]" "rest = cs" by simp_all
    from Cons.prems(1) True have "cs \<noteq> []" "\<not> ends_with_slash cs"
      by (cases cs; simp add: ends_with_slash_def)+
    then show ?thesis unfolding eq by simp
  next
    case False
    obtain f' sep' rest' where p: "str_partition CHR ''/'' cs = (f', sep', rest')"
      by (cases "str_partition CHR ''/'' cs")
    from Cons.prems False p have eq: "sep = sep'" "rest = rest'" by simp_all
    from Cons.prems(1) have "\<not> ends_with_slash cs"
      by (cases cs) (simp_all add: ends_with_slash_def)
    from Cons.IH[OF this p] show ?thesis unfolding eq .
  qed
qed

lemma join_Cons_Cons: "join ((c # s) # ss) = c # join (s # ss)"
  by (cases ss) simp_all

lemma join_Nil_Cons: "join ([] # s # ss) = CHR ''/'' # join (s # ss)"
  by simp

lemma join_segments: "join (segments p) = p"
proof (induction p)
  case Nil
  show ?case by simp
next
  case (Cons c cs)
  obtain s ss where seg: "segments cs = s # ss"
    using segments_nonempty[of cs] by (cases "segments cs") simp_all
  from Cons.IH have j: "join (s # ss) = cs" unfolding seg .
  show ?case
  proof (cases "c = CHR ''/''")
    case True
    then have "segments (c # cs) = [] # s # ss" by (simp add: seg)
    then have "join (segments (c # cs)) = CHR ''/'' # join (s # ss)"
      by (simp only: join_Nil_Cons)
    then show ?thesis unfolding j True .
  next
    case False
    then have "segments (c # cs) = (c # s) # ss" by (simp add: seg)
    then have "join (segments (c # cs)) = c # join (s # ss)"
      by (simp only: join_Cons_Cons)
    then show ?thesis unfolding j .
  qed
qed

subsection \<open>One call of each method\<close>

lemma getitem_unfold:
  "str_partition CHR ''/'' key = (f, sep, rest) \<Longrightarrow>
   getitem og self key =
     (if rest \<noteq> [] then
        (case dict_getitem self f of
           Inl e \<Rightarrow> Inl e
         | Inr v \<Rightarrow> py_getitem og v rest)
      else dict_getitem self f)"
  by (subst getitem.simps) (simp split: sum.splits pyval.splits)

lemma contains_unfold:
  "str_partition CHR ''/'' key = (f, sep, rest) \<Longrightarrow>
   contains oc self key =
     (if rest \<noteq> [] then
        (if dict_contains self f then
           (case dict_getitem self f of
              Inl e \<Rightarrow> Inl e
            | Inr v \<Rightarrow> py_contains oc v rest)
         else Inr False)
      else Inr (dict_contains self f))"
  by (subst contains.simps) (simp split: sum.splits pyval.splits)

lemma setitem_unfold:
  "str_partition CHR ''/'' key = (f, sep, rest) \<Longrightarrow>
   setitem self key v =
     (if rest \<noteq> [] then
        (let self1 = (if \<not> dict_contains self f
                      then dict_setitem self f (NestedDict []) else self)
         in case dict_getitem self1 f of
              Inl e \<Rightarrow> (self1, Some e)
            | Inr (NestedDict sub) \<Rightarrow>
                (case setitem sub rest v of
                   (sub', e) \<Rightarrow> (dict_setitem self1 f (NestedDict sub'), e))
            | Inr _ \<Rightarrow> (self1, Some TypeError))
      else (dict_setitem self key v, None))"
  by (subst setitem.simps) simp

subsection \<open>Lookup against resolution by segments\<close>

lemma getitem_resolve:
  "\<not> ends_with_slash p \<Longrightarrow>
   getitem og d p = (case resolve d (segments p) of
                       Found v \<Rightarrow> Inr v
                     | Absent k \<Rightarrow> Inl (KeyError k)
                     | AtLeaf leaf ss \<Rightarrow> py_getitem og leaf (join ss))"
proof (induction "length p" arbitrary: d p rule: less_induct)
  case less
  obtain f sep rest where part: "str_partition CHR ''/'' p = (f, sep, rest)"
    by (cases "str_partition CHR ''/'' p")
  note wf = partition_wf[OF less.prems part]
  note seg = segments_partition[OF part]
  note unf = getitem_unfold[OF part]
  show ?case
  proof (cases "rest = []")
    case True
    with wf have "sep = []" by simp
    with seg have s: "segments p = [f]" by simp
    show ?thesis unfolding unf s using True
      by (simp add: dict_getitem_def split: option.splits)
  next
    case False
    with wf have "sep \<noteq> []" by simp
    with seg have seg': "segments p = f # segments rest" by simp
    obtain t ts where ts: "segments rest = t # ts"
      using segments_nonempty[of rest] by (cases "segments rest") simp_all
    have j: "join (t # ts) = rest" using join_segments[of rest] unfolding ts .
    have len: "length rest < length p" using str_partition_rest_shorter[OF part False] .
    have wfr: "\<not> ends_with_slash rest" using wf by simp
    show ?thesis
    proof (cases "map_of d f")
      case None
      show ?thesis unfolding unf seg' ts using False None
        by (simp add: dict_getitem_def)
    next
      case (Some x)
      show ?thesis
      proof (cases x)
        case (NestedDict sub)
        have IH: "getitem og sub rest = (case resolve sub (t # ts) of
                    Found v \<Rightarrow> Inr v
                  | Absent k \<Rightarrow> Inl (KeyError k)
                  | AtLeaf leaf ss \<Rightarrow> py_getitem og leaf (join ss))"
          using less.hyps[OF len wfr, of sub] unfolding ts .
        show ?thesis unfolding unf seg' ts using False Some NestedDict IH
          by (simp add: dict_getitem_def)
      next
        case (PyInt n)
        show ?thesis unfolding unf seg' ts using False Some PyInt
          by (simp add: dict_getitem_def)
      next
        case (PyStr s)
        show ?thesis unfolding unf seg' ts using False Some PyStr
          by (simp add: dict_getitem_def)
      next
        case (PyObj a)
        show ?thesis unfolding unf seg' ts using False Some PyObj j
          by (simp add: dict_getitem_def)
      qed
    qed
  qed
qed

lemma contains_resolve:
  "\<not> ends_with_slash p \<Longrightarrow>
   contains oc d p = (case resolve d (segments p) of
                        Found v \<Rightarrow> Inr True
                      | Absent k \<Rightarrow> Inr False
                      | AtLeaf leaf ss \<Rightarrow> py_contains oc leaf (join ss))"
proof (induction "length p" arbitrary: d p rule: less_induct)
  case less
  obtain f sep rest where part: "str_partition CHR ''/'' p = (f, sep, rest)"
    by (cases "str_partition CHR ''/'' p")
  note wf = partition_wf[OF less.prems part]
  note seg = segments_partition[OF part]
  note unf = contains_unfold[OF part]
  show ?case
  proof (cases "rest = []")
    case True
    with wf have "sep = []" by simp
    with seg have s: "segments p = [f]" by simp
    show ?thesis unfolding unf s using True
      by (simp add: dict_contains_def split: option.splits)
  next
    case False
    with wf have "sep \<noteq> []" by simp
    with seg have seg': "segments p = f # segments rest" by simp
    obtain t ts where ts: "segments rest = t # ts"
      using segments_nonempty[of rest] by (cases "segments rest") simp_all
    have j: "join (t # ts) = rest" using join_segments[of rest] unfolding ts .
    have len: "length rest < length p" using str_partition_rest_shorter[OF part False] .
    have wfr: "\<not> ends_with_slash rest" using wf by simp
    show ?thesis
    proof (cases "map_of d f")
      case None
      show ?thesis unfolding unf seg' ts using False None
        by (simp add: dict_contains_def)
    next
      case (Some x)
      show ?thesis
      proof (cases x)
        case (NestedDict sub)
        have IH: "contains oc sub rest = (case resolve sub (t # ts) of
                    Found v \<Rightarrow> Inr True
                  | Absent k \<Rightarrow> Inr False
                  | AtLeaf leaf ss \<Rightarrow> py_contains oc leaf (join ss))"
          using less.hyps[OF len wfr, of sub] unfolding ts .
        show ?thesis unfolding unf seg' ts using False Some NestedDict IH
          by (simp add: dict_getitem_def dict_contains_def)
      next
        case (PyInt n)
        show ?thesis unfolding unf seg' ts using False Some PyInt
          by (simp add: dict_getitem_def dict_contains_def)
      next
        case (PyStr s)
        show ?thesis unfolding unf seg' ts using False Some PyStr j
          by (simp add: dict_getitem_def dict_contains_def)
      next
        case (PyObj a)
        show ?thesis unfolding unf seg' ts using False Some PyObj j
          by (simp add: dict_getitem_def dict_contains_def)
      qed
    qed
  qed
qed

lemma set_update_subset: "set (AList.update k v d) \<subseteq> insert (k, v) (set d)"
  by (induction d) auto

lemma distinct_keys_iff:
  "distinct_keys d \<longleftrightarrow>
     distinct (map fst d) \<and> (\<forall>k sub. (k, NestedDict sub) \<in> set d \<longrightarrow> distinct_keys sub)"
  by (induction d rule: distinct_keys.induct) (auto simp: image_iff)

lemma distinct_keys_update:
  assumes "distinct_keys d" and "\<And>sub. v = NestedDict sub \<Longrightarrow> distinct_keys sub"
  shows "distinct_keys (AList.update k v d)"
proof -
  have sub: "set (AList.update k v d) \<subseteq> insert (k, v) (set d)"
    by (rule set_update_subset)
  from assms(1) have d: "distinct (map fst d)"
    and s: "\<And>k sub. (k, NestedDict sub) \<in> set d \<Longrightarrow> distinct_keys sub"
    using distinct_keys_iff[of d] by blast+
  have "distinct (map fst (AList.update k v d))" using d by (rule distinct_update)
  moreover have "distinct_keys sub'" if "(k', NestedDict sub') \<in> set (AList.update k v d)" for k' sub'
  proof -
    from that sub have "(k', NestedDict sub') = (k, v) \<or> (k', NestedDict sub') \<in> set d" by blast
    then show ?thesis using assms(2) s by blast
  qed
  ultimately show ?thesis using distinct_keys_iff[of "AList.update k v d"] by blast
qed

lemma distinct_keys_sub:
  "distinct_keys d \<Longrightarrow> map_of d k = Some (NestedDict sub) \<Longrightarrow> distinct_keys sub"
  using distinct_keys_iff[of d] map_of_SomeD[of d k "NestedDict sub"] by blast

lemma distinct_keys_update':
  "distinct_keys d \<Longrightarrow> (\<forall>sub. v = NestedDict sub \<longrightarrow> distinct_keys sub) \<Longrightarrow>
   distinct_keys (AList.update k v d)"
  by (rule distinct_keys_update) blast+

lemma distinct_keys_setitem:
  "distinct_keys d \<Longrightarrow> (\<And>sub. v = NestedDict sub \<Longrightarrow> distinct_keys sub) \<Longrightarrow>
   distinct_keys (fst (setitem d p v))"
proof (induction "length p" arbitrary: d p rule: less_induct)
  case less
  obtain f sep rest where part: "str_partition CHR ''/'' p = (f, sep, rest)"
    by (cases "str_partition CHR ''/'' p")
  note unf = setitem_unfold[OF part]
  show ?case
  proof (cases "rest = []")
    case True
    show ?thesis unfolding unf using True less.prems
      by (simp add: dict_setitem_def distinct_keys_update')
  next
    case False
    define self1 where
      "self1 = (if \<not> dict_contains d f then dict_setitem d f (NestedDict []) else d)"
    have dk1: "distinct_keys self1"
      using less.prems(1) by (simp add: self1_def dict_setitem_def distinct_keys_update')
    have len: "length rest < length p" using str_partition_rest_shorter[OF part False] .
    have unf': "setitem d p v =
        (case dict_getitem self1 f of
              Inl e \<Rightarrow> (self1, Some e)
            | Inr (NestedDict sub) \<Rightarrow>
                (case setitem sub rest v of
                   (sub', e) \<Rightarrow> (dict_setitem self1 f (NestedDict sub'), e))
            | Inr _ \<Rightarrow> (self1, Some TypeError))"
      unfolding unf self1_def using False by (simp add: Let_def)
    show ?thesis
    proof (cases "dict_getitem self1 f")
      case (Inl e)
      then show ?thesis unfolding unf' using dk1 by simp
    next
      case (Inr x)
      show ?thesis
      proof (cases x)
        case (NestedDict sub)
        with Inr have m: "map_of self1 f = Some (NestedDict sub)"
          by (simp add: dict_getitem_def split: option.splits)
        have "distinct_keys sub" using dk1 m by (rule distinct_keys_sub)
        then have "distinct_keys (fst (setitem sub rest v))"
          using less.hyps[OF len] less.prems(2) by blast
        moreover obtain sub' e where r: "setitem sub rest v = (sub', e)"
          by (cases "setitem sub rest v")
        ultimately have "distinct_keys sub'" by simp
        then show ?thesis unfolding unf' using Inr NestedDict dk1 r
          by (simp add: dict_setitem_def distinct_keys_update')
      next
        case (PyInt n)
        then show ?thesis unfolding unf' using Inr dk1 by simp
      next
        case (PyStr s)
        then show ?thesis unfolding unf' using Inr dk1 by simp
      next
        case (PyObj a)
        then show ?thesis unfolding unf' using Inr dk1 by simp
      qed
    qed
  qed
qed

text \<open>
  C6 (as stated): \<open>contains(p)\<close> is True iff the full path resolves, and in particular
  False whenever a proper prefix of \<open>p\<close> resolves to a leaf. With the leaf 1 under
  \<open>a\<close>, the test \<open>'a/b' in d\<close> raises \<open>TypeError\<close> instead of returning False; with
  the string leaf \<open>xbx\<close> it returns True; and \<open>'a/' in d\<close> returns True although the
  segments of \<open>a/\<close> do not resolve.
\<close>

theorem contains_through_leaf_not_False:
  "contains not_iterable [(''a'', PyInt 1 :: unit pyval)] ''a/b'' = Inl TypeError
   \<and> resolve [(''a'', PyInt 1 :: unit pyval)] (segments ''a/b'') = AtLeaf (PyInt 1) [''b'']
   \<and> contains not_iterable [(''a'', PyStr ''xbx'' :: unit pyval)] ''a/b'' = Inr True
   \<and> resolve [(''a'', PyStr ''xbx'' :: unit pyval)] (segments ''a/b'')
       = AtLeaf (PyStr ''xbx'') [''b'']
   \<and> contains not_iterable [(''a'', PyInt 1 :: unit pyval)] ''a/'' = Inr True
   \<and> resolve [(''a'', PyInt 1 :: unit pyval)] (segments ''a/'') = AtLeaf (PyInt 1) [[]]"
  by (simp add: contains.simps dict_contains_def dict_getitem_def sublist_Cons_right)

text \<open>
  C6 (amended): for every \<open>NestedDict\<close> and every path that does not end in \<open>/\<close>,
  \<open>contains(p)\<close> returns True when the full path resolves, segment by segment through
  sub-trees, to a leaf or a sub-tree, and False when a sub-tree on the way lacks the next
  segment. Nothing is said of a path of which a proper prefix resolves to a leaf: there the
  test is handed to the leaf, whatever object it is.
\<close>

theorem contains_iff_resolves:
  "\<not> ends_with_slash p \<Longrightarrow>
   (resolve d (segments p) = Found v \<longrightarrow> contains obj_contains d p = Inr True)
   \<and> (resolve d (segments p) = Absent k \<longrightarrow> contains obj_contains d p = Inr False)"
  by (simp add: contains_resolve)

theorem contains_iff_resolves_witness:
  "\<not> ends_with_slash ''a/b''
   \<and> resolve [(''a'', NestedDict [(''b'', PyInt 1 :: unit pyval)])] (segments ''a/b'')
       = Found (PyInt 1)
   \<and> contains not_iterable [(''a'', NestedDict [(''b'', PyInt 1 :: unit pyval)])] ''a/b''
       = Inr True
   \<and> resolve [(''a'', NestedDict [(''b'', PyInt 1 :: unit pyval)])] (segments ''a/c'')
       = Absent ''c''
   \<and> contains not_iterable [(''a'', NestedDict [(''b'', PyInt 1 :: unit pyval)])] ''a/c''
       = Inr False"
  using contains_iff_resolves
      [of "''a/b''" "[(''a'', NestedDict [(''b'', PyInt 1 :: unit pyval)])]" "PyInt 1"
          not_iterable "''c''"]
    contains_iff_resolves
      [of "''a/c''" "[(''a'', NestedDict [(''b'', PyInt 1 :: unit pyval)])]" "PyInt 1"
          not_iterable "''c''"]
  by (simp add: ends_with_slash_def)

text \<open>
  C7 (as stated): \<open>get(p)\<close> returns the value at \<open>p\<close> when the path resolves and
  otherwise fails with a lookup error. With the leaf 1 under \<open>a\<close>, \<open>d['a/b']\<close> raises
  \<open>TypeError\<close>, which is not a \<open>LookupError\<close>; and \<open>d['a/']\<close> returns the leaf 1
  although the segments of \<open>a/\<close> do not resolve.
\<close>

theorem getitem_through_leaf_TypeError:
  "getitem not_subscriptable [(''a'', PyInt 1 :: unit pyval)] ''a/b'' = Inl TypeError
   \<and> \<not> is_LookupError TypeError
   \<and> resolve [(''a'', PyInt 1 :: unit pyval)] (segments ''a/b'') = AtLeaf (PyInt 1) [''b'']
   \<and> getitem not_subscriptable [(''a'', PyInt 1 :: unit pyval)] ''a/'' = Inr (PyInt 1)
   \<and> resolve [(''a'', PyInt 1 :: unit pyval)] (segments ''a/'') = AtLeaf (PyInt 1) [[]]"
  by (simp add: getitem.simps dict_getitem_def)

text \<open>
  C7 (amended): for every \<open>NestedDict\<close> and every path that does not end in \<open>/\<close>,
  \<open>get(p)\<close> returns the leaf or sub-tree at \<open>p\<close> when the full path resolves, and it
  raises \<open>KeyError\<close>, a lookup error, naming the segment that a sub-tree on the way
  lacks. Nothing is said of a path of which a proper prefix resolves to a leaf: there the
  rest of the path is looked up in the leaf, whatever object it is.
\<close>

theorem getitem_iff_resolves:
  "\<not> ends_with_slash p \<Longrightarrow>
   (resolve d (segments p) = Found v \<longrightarrow> getitem obj_getitem d p = Inr v)
   \<and> (resolve d (segments p) = Absent k \<longrightarrow>
        getitem obj_getitem d p = Inl (KeyError k) \<and> is_LookupError (KeyError k))"
  by (simp add: getitem_resolve)

theorem getitem_iff_resolves_witness:
  "\<not> ends_with_slash ''a/b''
   \<and> resolve [(''a'', NestedDict [(''b'', PyInt 1 :: unit pyval)])] (segments ''a/b'')
       = Found (PyInt 1)
   \<and> getitem not_subscriptable [(''a'', NestedDict [(''b'', PyInt 1 :: unit pyval)])] ''a/b''
       = Inr (PyInt 1)
   \<and> resolve [(''a'', NestedDict [(''b'', PyInt 1 :: unit pyval)])] (segments ''a/c'')
       = Absent ''c''
   \<and> getitem not_subscriptable [(''a'', NestedDict [(''b'', PyInt 1 :: unit pyval)])] ''a/c''
       = Inl (KeyError ''c'')
   \<and> is_LookupError (KeyError ''c'')"
  using getitem_iff_resolves
      [of "''a/b''" "[(''a'', NestedDict [(''b'', PyInt 1 :: unit pyval)])]" "PyInt 1"
          not_subscriptable "''c''"]
    getitem_iff_resolves
      [of "''a/c''" "[(''a'', NestedDict [(''b'', PyInt 1 :: unit pyval)])]" "PyInt 1"
          not_subscriptable "''c''"]
  by (simp add: ends_with_slash_def)

subsection \<open>Assignment through a leaf\<close>

text \<open>
  C9: once \<open>d['a/b'] = 1\<close> has been done, \<open>d['a/b/c'] = v\<close> raises (a \<open>TypeError\<close>,
  from the item assignment on the number) and leaves the dictionary as it was, so that
  \<open>d['a/b']\<close> is still 1. And an assignment never makes a key occur twice in a node: a
  key holds one value, a leaf or a sub-tree.
\<close>

theorem setitem_through_leaf_fails:
  "(setitem d ''a/b'' (PyInt 1) = (d1, None) \<longrightarrow>
      setitem d1 ''a/b/c'' v = (d1, Some TypeError)
        \<and> getitem obj_getitem d1 ''a/b'' = Inr (PyInt 1))
   \<and> (distinct_keys d \<and> (\<forall>sub. v = NestedDict sub \<longrightarrow> distinct_keys sub) \<longrightarrow>
      distinct_keys (fst (setitem d p v)))"
proof -
  have "setitem d1 ''a/b/c'' v = (d1, Some TypeError)
        \<and> getitem obj_getitem d1 ''a/b'' = Inr (PyInt 1)"
    if "setitem d ''a/b'' (PyInt 1) = (d1, None)"
    using that
    by (auto simp: setitem.simps getitem.simps dict_contains_def dict_getitem_def
          dict_setitem_def update_conv' Let_def update_triv
        split: option.splits pyval.splits if_splits prod.splits sum.splits)
  moreover have "distinct_keys (fst (setitem d p v))"
    if "distinct_keys d \<and> (\<forall>sub. v = NestedDict sub \<longrightarrow> distinct_keys sub)"
    using that distinct_keys_setitem[of d v p] by blast
  ultimately show ?thesis by blast
qed

theorem setitem_through_leaf_fails_witness:
  "setitem ([] :: unit pyval dict) ''a/b'' (PyInt 1) = ([(''a'', NestedDict [(''b'', PyInt 1)])], None)
   \<and> setitem [(''a'', NestedDict [(''b'', PyInt 1 :: unit pyval)])] ''a/b/c'' (PyInt 2)
       = ([(''a'', NestedDict [(''b'', PyInt 1)])], Some TypeError)
   \<and> getitem not_subscriptable [(''a'', NestedDict [(''b'', PyInt 1 :: unit pyval)])] ''a/b''
       = Inr (PyInt 1)
   \<and> distinct_keys (fst (setitem [(''a'', NestedDict [(''b'', PyInt 1 :: unit pyval)])]
                        ''a/c'' (PyInt 2)))"
proof -
  have s: "setitem ([] :: unit pyval dict) ''a/b'' (PyInt 1)
             = ([(''a'', NestedDict [(''b'', PyInt 1)])], None)"
    by (simp add: setitem.simps dict_contains_def dict_getitem_def dict_setitem_def)
  have d: "distinct_keys [(''a'', NestedDict [(''b'', PyInt 1 :: unit pyval)])]
           \<and> (\<forall>sub. (PyInt 2 :: unit pyval) = NestedDict sub \<longrightarrow> distinct_keys sub)"
    by simp
  from setitem_through_leaf_fails
         [of "[]" "[(''a'', NestedDict [(''b'', PyInt 1 :: unit pyval)])]" "PyInt 2"
             not_subscriptable "''a/c''"]
       setitem_through_leaf_fails
         [of "[(''a'', NestedDict [(''b'', PyInt 1 :: unit pyval)])]" "[]" "PyInt 2"
             not_subscriptable "''a/c''"]
       s d
  show ?thesis by simp
qed

subsection \<open>The three iterators\<close>

text \<open>
  C10: \<open>keys()\<close>, \<open>values()\<close> and \<open>items()\<close> yield sequences of the same length in the
  same order, the i-th item is the pair of the i-th key and the i-th value, and no
  sub-tree is ever yielded as a value.
\<close>

theorem keys_values_items_consistent:
  "length (values_of d) = length (keys d)
   \<and> length (items d) = length (keys d)
   \<and> items d = zip (keys d) (values_of d)
   \<and> (\<forall>i < length (items d). items d ! i = (keys d ! i, values_of d ! i))
   \<and> (\<forall>v\<in>set (values_of d). is_leaf v)"
proof -
  have a: "length (values_of d) = length (keys d) \<and> items d = zip (keys d) (values_of d)
           \<and> (\<forall>v\<in>set (values_of d). is_leaf v)"
    by (induction d rule: keys.induct) (auto simp: zip_map1)
  then show ?thesis by simp
qed

theorem keys_values_items_consistent_witness:
  "items [(''a'', NestedDict [(''x'', PyInt 1 :: unit pyval), (''y'', PyStr ''s'')]), (''b'', PyInt 2)]
     = [(''a/x'', PyInt 1), (''a/y'', PyStr ''s''), (''b'', PyInt 2)]
   \<and> keys [(''a'', NestedDict [(''x'', PyInt 1 :: unit pyval), (''y'', PyStr ''s'')]), (''b'', PyInt 2)]
     = [''a/x'', ''a/y'', ''b'']
   \<and> values_of [(''a'', NestedDict [(''x'', PyInt 1 :: unit pyval), (''y'', PyStr ''s'')]), (''b'', PyInt 2)]
     = [PyInt 1, PyStr ''s'', PyInt 2]"
  using keys_values_items_consistent
          [of "[(''a'', NestedDict [(''x'', PyInt 1 :: unit pyval), (''y'', PyStr ''s'')]),
                (''b'', PyInt 2)]"]
  by simp


subsection \<open>Runs of assignments on an empty dictionary\<close>

lemma partition_no_slash:
  "CHR ''/'' \<notin> set s \<Longrightarrow> str_partition CHR ''/'' s = (s, [], [])"
  by (induction s) auto

lemma partition_slash:
  "CHR ''/'' \<notin> set s \<Longrightarrow> str_partition CHR ''/'' (s @ CHR ''/'' # k) = (s, ''/'', k)"
  by (induction s) auto

lemma partition_first_no_slash:
  "str_partition CHR ''/'' p = (f, sep, rest) \<Longrightarrow> CHR ''/'' \<notin> set f"
proof (induction p arbitrary: f sep rest)
  case Nil
  then show ?case by simp
next
  case (Cons c cs)
  obtain f' sep' rest' where p: "str_partition CHR ''/'' cs = (f', sep', rest')"
    by (cases "str_partition CHR ''/'' cs")
  show ?case
  proof (cases "c = CHR ''/''")
    case True
    with Cons.prems show ?thesis by simp
  next
    case False
    with Cons.prems p have "f = c # f'" by simp
    with Cons.IH[OF p] False show ?thesis by simp
  qed
qed

lemma partition_recompose:
  "str_partition CHR ''/'' p = (f, sep, rest) \<Longrightarrow>
   p = f @ sep @ rest \<and> ((sep = [] \<and> rest = []) \<or> sep = ''/'')"
proof (induction p arbitrary: f sep rest)
  case Nil
  then show ?case by simp
next
  case (Cons c cs)
  obtain f' sep' rest' where p: "str_partition CHR ''/'' cs = (f', sep', rest')"
    by (cases "str_partition CHR ''/'' cs")
  show ?case
  proof (cases "c = CHR ''/''")
    case True
    with Cons.prems show ?thesis by auto
  next
    case False
    with Cons.prems p have "f = c # f'" "sep = sep'" "rest = rest'" by simp_all
    with Cons.IH[OF p] show ?thesis by simp
  qed
qed

lemma first_seg_no_slash: "CHR ''/'' \<notin> set (first_seg p)"
  using partition_first_no_slash[of p "first_seg p" "fst (snd (str_partition CHR ''/'' p))" "rest_of p"]
  by (simp add: first_seg_def rest_of_def)

lemma rest_nonempty_recompose:
  "rest_of p \<noteq> [] \<Longrightarrow> p = first_seg p @ CHR ''/'' # rest_of p"
  using partition_recompose[OF part_eq[of p]] by auto

lemma rest_empty_wf:
  "\<not> ends_with_slash p \<Longrightarrow> rest_of p = [] \<Longrightarrow> first_seg p = p"
  using partition_recompose[OF part_eq[of p]] partition_wf[OF _ part_eq[of p]] by auto

lemma rest_wf: "\<not> ends_with_slash p \<Longrightarrow> \<not> ends_with_slash (rest_of p)"
  using partition_wf[OF _ part_eq[of p]] by simp

lemma first_seg_slash: "CHR ''/'' \<notin> set s \<Longrightarrow> first_seg (s @ CHR ''/'' # k) = s"
  by (simp add: first_seg_def partition_slash)

lemma rest_of_slash: "CHR ''/'' \<notin> set s \<Longrightarrow> rest_of (s @ CHR ''/'' # k) = k"
  by (simp add: rest_of_def partition_slash)

lemma first_seg_plain: "CHR ''/'' \<notin> set s \<Longrightarrow> first_seg s = s"
  by (simp add: first_seg_def partition_no_slash)

lemma rest_of_plain: "CHR ''/'' \<notin> set s \<Longrightarrow> rest_of s = []"
  by (simp add: rest_of_def partition_no_slash)

lemma firsts_snoc: "firsts (xs @ [x]) = (if x \<in> set xs then firsts xs else firsts xs @ [x])"
  by (simp add: firsts_def)

lemma set_firsts [simp]: "set (firsts xs) = set xs"
  by (simp add: firsts_def)

lemma distinct_firsts [simp]: "distinct (firsts xs)"
  by (simp add: firsts_def)

lemma firsts_Nil [simp]: "firsts [] = []"
  by (simp add: firsts_def)

lemma rests_Nil [simp]: "rests s [] = []"
  by (simp add: rests_def)

lemma rests_snoc:
  "rests s (ops @ [(p, v)]) = rests s ops @ (if first_seg p = s then [(rest_of p, v)] else [])"
  by (simp add: rests_def)

lemma rests_empty_iff: "rests s ops = [] \<longleftrightarrow> s \<notin> set (map (first_seg \<circ> fst) ops)"
  by (induction ops) (auto simp: rests_def)



lemma good_Nil [simp]: "good []"
  by (simp add: good_def)

lemma good_butlast: "good (ops @ [op]) \<Longrightarrow> good ops"
  by (simp add: good_def)

lemma good_last:
  "good (ops @ [(p, v)]) \<Longrightarrow> \<not> ends_with_slash p \<and> is_leaf v"
  by (simp add: good_def)

lemma good_no_extension:
  "good ops \<Longrightarrow> p \<in> fst ` set ops \<Longrightarrow> q \<in> fst ` set ops \<Longrightarrow> \<not> prefix (p @ ''/'') q"
  unfolding good_def by blast

lemma good_wf: "good ops \<Longrightarrow> (p, v) \<in> set ops \<Longrightarrow> \<not> ends_with_slash p"
  by (auto simp: good_def)

lemma good_leaf: "good ops \<Longrightarrow> (p, v) \<in> set ops \<Longrightarrow> is_leaf v"
  by (auto simp: good_def)

lemma in_rests:
  "(q, w) \<in> set (rests s ops) \<longleftrightarrow> (\<exists>p. (p, w) \<in> set ops \<and> first_seg p = s \<and> rest_of p = q)"
  by (auto simp: rests_def)

lemma good_rests:
  assumes "good ops"
  shows "good (rests s ops)"
proof -
  have wf: "\<not> ends_with_slash q \<and> is_leaf w" if "(q, w) \<in> set (rests s ops)" for q w
  proof -
    from that obtain p where p: "(p, w) \<in> set ops" "rest_of p = q"
      using in_rests[of q w s ops] by blast
    from good_wf[OF assms p(1)] have "\<not> ends_with_slash (rest_of p)" by (rule rest_wf)
    with p good_leaf[OF assms p(1)] show ?thesis by simp
  qed
  have pf: "\<not> prefix (q1 @ ''/'') q2"
    if "q1 \<in> fst ` set (rests s ops)" "q2 \<in> fst ` set (rests s ops)" for q1 q2
  proof
    assume pre: "prefix (q1 @ ''/'') q2"
    from that(1) obtain w1 where "(q1, w1) \<in> set (rests s ops)" by auto
    then obtain p1 where p1: "(p1, w1) \<in> set ops" "first_seg p1 = s" "rest_of p1 = q1"
      using in_rests[of q1 w1 s ops] by blast
    from that(2) obtain w2 where "(q2, w2) \<in> set (rests s ops)" by auto
    then obtain p2 where p2: "(p2, w2) \<in> set ops" "first_seg p2 = s" "rest_of p2 = q2"
      using in_rests[of q2 w2 s ops] by blast
    from pre have "q2 \<noteq> []" by auto
    with p2 have e2: "p2 = s @ CHR ''/'' # q2" using rest_nonempty_recompose[of p2] by simp
    have "prefix (p1 @ ''/'') p2"
    proof (cases "q1 = []")
      case True
      with p1 good_wf[OF assms p1(1)] have "p1 = s" using rest_empty_wf[of p1] by simp
      then show ?thesis unfolding e2 by simp
    next
      case False
      with p1 have "p1 = s @ CHR ''/'' # q1" using rest_nonempty_recompose[of p1] by simp
      then show ?thesis unfolding e2 using pre by simp
    qed
    moreover have "p1 \<in> fst ` set ops" "p2 \<in> fst ` set ops"
      using p1(1) p2(1) by force+
    ultimately show False using good_no_extension[OF assms] by blast
  qed
  show ?thesis unfolding good_def using wf pf by blast
qed

lemma rep_Nil [simp]: "rep [] []"
  by (simp add: rep_def)

lemma rep_entries_iff:
  "rep_entries d ops \<longleftrightarrow> (\<forall>e\<in>set d. rep_entries [e] ops)"
  by (induction d ops rule: rep_entries.induct) auto

lemma rep_entries_single_cong:
  "rests (fst e) ops' = rests (fst e) ops \<Longrightarrow> rep_entries [e] ops' = rep_entries [e] ops"
proof -
  assume a: "rests (fst e) ops' = rests (fst e) ops"
  obtain s x where e: "e = (s, x)" by (cases e)
  show ?thesis using a unfolding e by (cases x) simp_all
qed

lemma set_update_distinct:
  "distinct (map fst d) \<Longrightarrow> set (AList.update k v d) = insert (k, v) {e \<in> set d. fst e \<noteq> k}"
  by (induction d) (auto simp: image_iff)

lemma last_set_snoc [simp]: "last_set (ops @ [(p, v)]) p = Some v"
  by (simp add: last_set_def)

lemma last_set_snoc_other: "q \<noteq> p \<Longrightarrow> last_set (ops @ [(p, v)]) q = last_set ops q"
  by (simp add: last_set_def)



lemma rep_entries_leaf:
  "is_leaf x \<Longrightarrow>
   rep_entries [(s, x)] ops =
     (fst ` set (rests s ops) \<subseteq> {[]} \<and> last_set (rests s ops) [] = Some x)"
  by (cases x) simp_all

lemma rep_entries_sub:
  "rep_entries [(s, NestedDict sub)] ops =
     ([] \<notin> fst ` set (rests s ops) \<and> rep sub (rests s ops))"
  by (simp add: rep_def)

lemma rep_keys: "rep d ops \<Longrightarrow> set (map fst d) = set (map (first_seg \<circ> fst) ops)"
  unfolding rep_def by (metis set_firsts)

lemma rep_distinct: "rep d ops \<Longrightarrow> distinct (map fst d)"
  unfolding rep_def by (metis distinct_firsts)

lemma rep_entry:
  "rep d ops \<Longrightarrow> map_of d s = Some x \<Longrightarrow> rep_entries [(s, x)] ops"
proof -
  assume r: "rep d ops" and m: "map_of d s = Some x"
  from m have "(s, x) \<in> set d" by (rule map_of_SomeD)
  moreover from r have "rep_entries d ops" by (simp add: rep_def)
  ultimately show ?thesis using rep_entries_iff[of d ops] by blast
qed

lemma rep_update:
  assumes r: "rep d ops"
      and f: "first_seg p = f"
      and entry: "rep_entries [(f, x)] (ops @ [(p, v)])"
  shows "rep (AList.update f x d) (ops @ [(p, v)])"
proof -
  let ?ops' = "ops @ [(p, v)]"
  have k: "map fst d = firsts (map (first_seg \<circ> fst) ops)" using r by (simp add: rep_def)
  have ks: "set (map fst d) = set (map (first_seg \<circ> fst) ops)" using r by (rule rep_keys)
  have "map (first_seg \<circ> fst) ?ops' = map (first_seg \<circ> fst) ops @ [f]" using f by simp
  then have "firsts (map (first_seg \<circ> fst) ?ops') =
      (if f \<in> set (map fst d) then map fst d else map fst d @ [f])"
    unfolding ks k[symmetric] by (simp only: firsts_snoc k[symmetric])
  then have keys: "map fst (AList.update f x d) = firsts (map (first_seg \<circ> fst) ?ops')"
    by (simp only: update_keys)
  have "rep_entries [e] ?ops'" if e: "e \<in> set (AList.update f x d)" for e
  proof (cases "e = (f, x)")
    case True
    then show ?thesis using entry by simp
  next
    case False
    with e set_update_distinct[OF rep_distinct[OF r], of f x]
    have ed: "e \<in> set d" and ne: "fst e \<noteq> f" by auto
    from ne f have "rests (fst e) ?ops' = rests (fst e) ops" by (simp add: rests_snoc)
    then have "rep_entries [e] ?ops' = rep_entries [e] ops" by (rule rep_entries_single_cong)
    moreover from r have "rep_entries d ops" by (simp add: rep_def)
    then have "rep_entries [e] ops" using ed rep_entries_iff[of d ops] by blast
    ultimately show ?thesis by simp
  qed
  then have "rep_entries (AList.update f x d) ?ops'"
    using rep_entries_iff[of "AList.update f x d" ?ops'] by blast
  with keys show ?thesis by (simp add: rep_def)
qed

lemma last_set_in:
  "last_set ops p = Some v \<Longrightarrow> (p, v) \<in> set ops"
  unfolding last_set_def by (metis map_of_SomeD set_rev)

lemma setitem_last:
  "rest_of p = [] \<Longrightarrow> setitem d p v = (AList.update p v d, None)"
  using setitem_unfold[OF part_eq[of p], of d v] by (simp add: dict_setitem_def)

lemma setitem_descend:
  assumes "rest_of p \<noteq> []"
      and "map_of d (first_seg p) = Some (NestedDict sub)"
      and "setitem sub (rest_of p) v = (sub', e)"
  shows "setitem d p v = (AList.update (first_seg p) (NestedDict sub') d, e)"
  using setitem_unfold[OF part_eq[of p], of d v] assms
  by (simp add: dict_setitem_def dict_getitem_def dict_contains_def)

lemma setitem_create:
  assumes "rest_of p \<noteq> []"
      and "map_of d (first_seg p) = None"
      and "setitem [] (rest_of p) v = (sub', e)"
  shows "setitem d p v = (AList.update (first_seg p) (NestedDict sub') d, e)"
  using setitem_unfold[OF part_eq[of p], of d v] assms
  by (simp add: dict_setitem_def dict_getitem_def dict_contains_def update_conv')

lemma rep_step:
  "rep d ops \<Longrightarrow> good (ops @ [(p, v)]) \<Longrightarrow>
   \<exists>d'. setitem d p v = (d', None) \<and> rep d' (ops @ [(p, v)])"
proof (induction "length p" arbitrary: d ops p rule: less_induct)
  case less
  let ?ops' = "ops @ [(p, v)]"
  let ?f = "first_seg p"
  note r = less.prems(1) and g' = less.prems(2)
  have g: "good ops" using g' by (rule good_butlast)
  have wf: "\<not> ends_with_slash p" and lv: "is_leaf v" using good_last[OF g'] by simp_all
  have pin: "p \<in> fst ` set ?ops'" by force
  have qin: "q \<in> fst ` set ?ops'" if "(q, w) \<in> set ops" for q w using that by force
  show ?case
  proof (cases "rest_of p = []")
    case True
    have fp: "?f = p" using rest_empty_wf[OF wf True] .
    have sub: "fst ` set (rests p ops) \<subseteq> {[]}"
    proof
      fix q assume "q \<in> fst ` set (rests p ops)"
      then obtain w where "(q, w) \<in> set (rests p ops)" by auto
      then obtain p1 where p1: "(p1, w) \<in> set ops" "first_seg p1 = p" "rest_of p1 = q"
        using in_rests[of q w p ops] by blast
      have "q = []"
      proof (rule ccontr)
        assume "q \<noteq> []"
        with p1 have "p1 = p @ CHR ''/'' # q" using rest_nonempty_recompose[of p1] by simp
        then have "prefix (p @ ''/'') p1" by simp
        with good_no_extension[OF g' pin qin[OF p1(1)]] show False by simp
      qed
      then show "q \<in> {[]}" by simp
    qed
    have rs: "rests p ?ops' = rests p ops @ [([], v)]"
      using fp True by (simp add: rests_snoc)
    have "rep_entries [(p, v)] ?ops'"
      unfolding rep_entries_leaf[OF lv] rs using sub by (simp add: last_set_def)
    then have "rep (AList.update p v d) ?ops'"
      using rep_update[OF r fp] by simp
    with setitem_last[OF True, of d v] show ?thesis by simp
  next
    case False
    have pe: "p = ?f @ CHR ''/'' # rest_of p" using rest_nonempty_recompose[OF False] .
    have len: "length (rest_of p) < length p"
      using str_partition_rest_shorter[OF part_eq[of p] False] .
    have rs: "rests ?f ?ops' = rests ?f ops @ [(rest_of p, v)]"
      by (simp add: rests_snoc)
    have gr: "good (rests ?f ops @ [(rest_of p, v)])"
      using good_rests[OF g', of ?f] unfolding rs .
    show ?thesis
    proof (cases "map_of d ?f")
      case None
      then have "?f \<notin> set (map fst d)" by (simp add: map_of_eq_None_iff)
      then have "?f \<notin> set (map (first_seg \<circ> fst) ops)" using rep_keys[OF r] by simp
      then have e: "rests ?f ops = []" using rests_empty_iff[of ?f ops] by simp
      from gr have "good ([] @ [(rest_of p, v)])" unfolding e by simp
      from less.hyps[OF len rep_Nil this] obtain sub' where
        s: "setitem [] (rest_of p) v = (sub', None)" and rs': "rep sub' ([] @ [(rest_of p, v)])"
        by blast
      have "rep_entries [(?f, NestedDict sub')] ?ops'"
        unfolding rep_entries_sub rs e using rs' False by simp
      then have "rep (AList.update ?f (NestedDict sub') d) ?ops'"
        by (rule rep_update[OF r refl])
      with setitem_create[OF False None s] show ?thesis by simp
    next
      case (Some x)
      have ent: "rep_entries [(?f, x)] ops" using rep_entry[OF r Some] .
      show ?thesis
      proof (cases "is_leaf x")
        case True
        from ent have "last_set (rests ?f ops) [] = Some x"
          unfolding rep_entries_leaf[OF True] by simp
        then have "([], x) \<in> set (rests ?f ops)" by (rule last_set_in)
        then obtain q where q: "(q, x) \<in> set ops" "first_seg q = ?f" "rest_of q = []"
          using in_rests[of "[]" x ?f ops] by blast
        from rest_empty_wf[OF good_wf[OF g q(1)] q(3)] q(2) have "q = ?f" by simp
        then have "prefix (q @ ''/'') p" using pe by (metis append.assoc append_Cons append_Nil prefixI)
        with good_no_extension[OF g' qin[OF q(1)] pin] show ?thesis by simp
      next
        case False
        then obtain sub where x: "x = NestedDict sub" by (cases x) simp_all
        from ent have ne: "[] \<notin> fst ` set (rests ?f ops)" and rsub: "rep sub (rests ?f ops)"
          unfolding x rep_entries_sub by simp_all
        from less.hyps[OF len rsub gr] obtain sub' where
          s: "setitem sub (rest_of p) v = (sub', None)"
          and rs': "rep sub' (rests ?f ops @ [(rest_of p, v)])"
          by blast
        have "rep_entries [(?f, NestedDict sub')] ?ops'"
          unfolding rep_entries_sub rs using rs' ne \<open>rest_of p \<noteq> []\<close> by simp
        then have "rep (AList.update ?f (NestedDict sub') d) ?ops'"
          by (rule rep_update[OF r refl])
        with setitem_descend[OF \<open>rest_of p \<noteq> []\<close> Some[unfolded x] s] show ?thesis by simp
      qed
    qed
  qed
qed

lemma path_eq:
  "\<not> ends_with_slash p \<Longrightarrow> \<not> ends_with_slash q \<Longrightarrow> first_seg p = first_seg q \<Longrightarrow>
   rest_of p = rest_of q \<Longrightarrow> p = q"
  using rest_nonempty_recompose[of p] rest_nonempty_recompose[of q]
        rest_empty_wf[of p] rest_empty_wf[of q]
  by (cases "rest_of p = []") simp_all

lemma last_set_append:
  "last_set (xs @ [(k, w)]) k' = (if k' = k then Some w else last_set xs k')"
  by (simp add: last_set_def)

lemma last_set_rests:
  "\<forall>(q, w)\<in>set ops. \<not> ends_with_slash q \<Longrightarrow> \<not> ends_with_slash p \<Longrightarrow>
   last_set (rests (first_seg p) ops) (rest_of p) = last_set ops p"
proof (induction ops rule: rev_induct)
  case Nil
  show ?case by (simp add: last_set_def)
next
  case (snoc a ops)
  obtain q w where a: "a = (q, w)" by (cases a)
  from snoc.prems have wfq: "\<not> ends_with_slash q" and rest: "\<forall>(q, w)\<in>set ops. \<not> ends_with_slash q"
    by (simp_all add: a)
  have IH: "last_set (rests (first_seg p) ops) (rest_of p) = last_set ops p"
    using snoc.IH[OF rest snoc.prems(2)] .
  show ?case
  proof (cases "q = p")
    case True
    then show ?thesis unfolding a by (simp add: rests_snoc last_set_append)
  next
    case False
    with path_eq[OF snoc.prems(2) wfq]
    have "\<not> (first_seg q = first_seg p \<and> rest_of q = rest_of p)" by auto
    with False IH show ?thesis unfolding a
      by (auto simp: rests_snoc last_set_append)
  qed
qed

lemma good_all_wf: "good ops \<Longrightarrow> \<forall>(q, w)\<in>set ops. \<not> ends_with_slash q"
  by (auto simp: good_def)

lemma rep_getitem:
  "rep d ops \<Longrightarrow> good ops \<Longrightarrow> last_set ops p = Some v \<Longrightarrow> getitem og d p = Inr v"
proof (induction "length p" arbitrary: d ops p rule: less_induct)
  case less
  note r = less.prems(1) and g = less.prems(2) and l = less.prems(3)
  let ?f = "first_seg p"
  have pin: "(p, v) \<in> set ops" using l by (rule last_set_in)
  have wf: "\<not> ends_with_slash p" using good_wf[OF g pin] .
  have "?f \<in> set (map (first_seg \<circ> fst) ops)" using pin by force
  then have "?f \<in> set (map fst d)" using rep_keys[OF r] by simp
  then obtain x where x: "map_of d ?f = Some x"
    by (metis map_of_eq_None_iff not_None_eq set_map)
  have ent: "rep_entries [(?f, x)] ops" using rep_entry[OF r x] .
  have rin: "(rest_of p, v) \<in> set (rests ?f ops)" using pin in_rests[of "rest_of p" v ?f ops] by blast
  have lr: "last_set (rests ?f ops) (rest_of p) = Some v"
    using last_set_rests[OF good_all_wf[OF g] wf] l by simp
  show ?case
  proof (cases "rest_of p = []")
    case True
    have gi: "getitem og d p = Inr x"
      using getitem_unfold[OF part_eq[of p], of og d] True x by (simp add: dict_getitem_def)
    have lf: "is_leaf x"
    proof (rule ccontr)
      assume "\<not> is_leaf x"
      then obtain sub where "x = NestedDict sub" by (cases x) simp_all
      with ent have "[] \<notin> fst ` set (rests ?f ops)" unfolding rep_entries_sub by simp
      with rin True show False by force
    qed
    from ent have "last_set (rests ?f ops) [] = Some x" unfolding rep_entries_leaf[OF lf] by simp
    with lr True have "x = v" by simp
    with gi show ?thesis by simp
  next
    case False
    have len: "length (rest_of p) < length p"
      using str_partition_rest_shorter[OF part_eq[of p] False] .
    have "\<not> is_leaf x"
    proof
      assume lf: "is_leaf x"
      from ent have "fst ` set (rests ?f ops) \<subseteq> {[]}" unfolding rep_entries_leaf[OF lf] by simp
      with rin False show False by force
    qed
    then obtain sub where xs: "x = NestedDict sub" by (cases x) simp_all
    from ent have rsub: "rep sub (rests ?f ops)" unfolding xs rep_entries_sub by simp
    have "getitem og sub (rest_of p) = Inr v"
      using less.hyps[OF len rsub good_rests[OF g] lr] .
    then show ?thesis
      using getitem_unfold[OF part_eq[of p], of og d] False x xs by (simp add: dict_getitem_def)
  qed
qed

lemma setitems_snoc:
  "setitems d (ops @ [(p, v)]) =
     (case setitems d ops of
        (d', None) \<Rightarrow> setitem d' p v
      | (d', Some e) \<Rightarrow> (d', Some e))"
proof (induction ops arbitrary: d)
  case Nil
  show ?case by (simp split: prod.splits option.splits)
next
  case (Cons a ops)
  obtain q w where a: "a = (q, w)" by (cases a)
  show ?case unfolding a using Cons.IH
    by (simp split: prod.splits option.splits)
qed

lemma rep_setitems:
  "good ops \<Longrightarrow> \<exists>d. setitems [] ops = (d, None) \<and> rep d ops"
proof (induction ops rule: rev_induct)
  case Nil
  show ?case by simp
next
  case (snoc a ops)
  obtain p v where a: "a = (p, v)" by (cases a)
  from snoc.prems have g': "good (ops @ [(p, v)])" by (simp add: a)
  from snoc.IH[OF good_butlast[OF g']] obtain d where
    d: "setitems [] ops = (d, None)" "rep d ops" by blast
  from rep_step[OF d(2) g'] obtain d' where
    d': "setitem d p v = (d', None)" "rep d' (ops @ [(p, v)])" by blast
  show ?case unfolding a setitems_snoc using d d' by simp
qed

lemma tails_rests: "map fst (rests s ops) = tails s (map fst ops)"
  by (induction ops) (auto simp: rests_def tails_def)

lemma dict_induct [case_names Nil Sub Leaf]:
  assumes "P []"
      and "\<And>k sub kvs. P sub \<Longrightarrow> P kvs \<Longrightarrow> P ((k, NestedDict sub) # kvs)"
      and "\<And>k v kvs. is_leaf v \<Longrightarrow> P kvs \<Longrightarrow> P ((k, v) # kvs)"
  shows "P d"
  using assms by (induction d rule: keys.induct) auto

lemma keys_leaf: "is_leaf v \<Longrightarrow> keys ((k, v) # kvs) = k # keys kvs"
  by (cases v) simp_all

lemma rep_entries_Cons:
  "rep_entries (e # kvs) ops \<longleftrightarrow> rep_entries [e] ops \<and> rep_entries kvs ops"
  using rep_entries_iff[of "e # kvs" ops] rep_entries_iff[of kvs ops] by simp

lemma rep_entries_keys:
  "rep_entries d ops \<Longrightarrow>
   keys d = concat (map (\<lambda>s. if [] \<in> set (tails s (map fst ops)) then [s]
                              else map (\<lambda>k. s @ ''/'' @ k) (tree_order (tails s (map fst ops))))
                        (map fst d))"
proof (induction d arbitrary: ops rule: dict_induct)
  case Nil
  show ?case by simp
next
  case (Sub key sub kvs)
  from Sub.prems have ne: "[] \<notin> fst ` set (rests key ops)"
    and ks: "map fst sub = firsts (map (first_seg \<circ> fst) (rests key ops))"
    and rs: "rep_entries sub (rests key ops)" and rk: "rep_entries kvs ops"
    by simp_all
  have ne': "[] \<notin> set (tails key (map fst ops))"
    using ne unfolding tails_rests[symmetric] by simp
  have fs: "map (first_seg \<circ> fst) (rests key ops) = map first_seg (tails key (map fst ops))"
    unfolding tails_rests[symmetric] by simp
  have "keys sub = tree_order (tails key (map fst ops))"
    unfolding Sub.IH(1)[OF rs] ks tails_rests fs
    by (subst (2) tree_order.simps) simp
  with Sub.IH(2)[OF rk] ne' show ?case by simp
next
  case (Leaf key v kvs)
  from Leaf.prems have e: "rep_entries [(key, v)] ops" and rk: "rep_entries kvs ops"
    using rep_entries_Cons[of "(key, v)" kvs ops] by simp_all
  from e have l: "last_set (rests key ops) [] = Some v"
    unfolding rep_entries_leaf[OF Leaf.hyps] by simp
  from last_set_in[OF l] have "[] \<in> set (tails key (map fst ops))"
    unfolding tails_rests[symmetric] by force
  with Leaf.IH[OF rk] show ?case by (simp add: keys_leaf[OF Leaf.hyps])
qed

lemma rep_keys_tree_order: "rep d ops \<Longrightarrow> keys d = tree_order (map fst ops)"
proof -
  assume r: "rep d ops"
  then have k: "map fst d = firsts (map first_seg (map fst ops))" and e: "rep_entries d ops"
    by (simp_all add: rep_def)
  show ?thesis unfolding rep_entries_keys[OF e] k
    by (subst (2) tree_order.simps) simp
qed

lemma distinct_concat_tagged:
  "distinct F \<Longrightarrow> (\<And>s. s \<in> set F \<Longrightarrow> distinct (g s)) \<Longrightarrow>
   (\<And>s k. s \<in> set F \<Longrightarrow> k \<in> set (g s) \<Longrightarrow> h k = s) \<Longrightarrow>
   distinct (concat (map g F))"
proof (induction F)
  case Nil
  show ?case by simp
next
  case (Cons a F)
  have "distinct (concat (map g F))"
    using Cons.IH Cons.prems by simp
  moreover have "distinct (g a)" using Cons.prems(2) by simp
  moreover have "set (g a) \<inter> set (concat (map g F)) = {}"
  proof (rule ccontr)
    assume "set (g a) \<inter> set (concat (map g F)) \<noteq> {}"
    then obtain k s where k: "k \<in> set (g a)" "s \<in> set F" "k \<in> set (g s)" by auto
    from Cons.prems(3)[of a k] k(1) have "h k = a" by simp
    moreover from Cons.prems(3)[of s k] k(2,3) have "h k = s" by simp
    ultimately show False using Cons.prems(1) k(2) by simp
  qed
  ultimately show ?case by simp
qed

lemma tails_snoc:
  "tails s (ps @ [p]) = tails s ps @ (if first_seg p = s then [rest_of p] else [])"
  by (simp add: tails_def)

lemma in_tails: "k \<in> set (tails s ps) \<longleftrightarrow> (\<exists>p\<in>set ps. first_seg p = s \<and> rest_of p = k)"
  by (auto simp: tails_def)

lemma tree_order_again:
  "p \<in> set ps \<Longrightarrow> tree_order (ps @ [p]) = tree_order ps"
proof (induction ps arbitrary: p rule: tree_order.induct)
  case (1 ps)
  have F: "firsts (map first_seg (ps @ [p])) = firsts (map first_seg ps)"
    using "1.prems" by (simp add: firsts_snoc)
  have "(if [] \<in> set (tails s (ps @ [p])) then [s]
         else map (\<lambda>k. s @ ''/'' @ k) (tree_order (tails s (ps @ [p]))))
      = (if [] \<in> set (tails s ps) then [s]
         else map (\<lambda>k. s @ ''/'' @ k) (tree_order (tails s ps)))"
    if s: "s \<in> set (firsts (map first_seg ps))" for s
  proof (cases "first_seg p = s")
    case False
    then show ?thesis by (simp add: tails_snoc)
  next
    case True
    then have t: "tails s (ps @ [p]) = tails s ps @ [rest_of p]" by (simp add: tails_snoc)
    have m: "rest_of p \<in> set (tails s ps)" using "1.prems" True in_tails[of "rest_of p" s ps] by blast
    show ?thesis
    proof (cases "[] \<in> set (tails s ps)")
      case True
      then show ?thesis unfolding t by simp
    next
      case False
      with m have "[] \<notin> set (tails s ps @ [rest_of p])" by auto
      moreover have "tree_order (tails s ps @ [rest_of p]) = tree_order (tails s ps)"
        using "1.IH"[OF s False m] .
      ultimately show ?thesis unfolding t using False by simp
    qed
  qed
  then have "map (\<lambda>s. if [] \<in> set (tails s (ps @ [p])) then [s]
                       else map (\<lambda>k. s @ ''/'' @ k) (tree_order (tails s (ps @ [p]))))
                 (firsts (map first_seg ps))
           = map (\<lambda>s. if [] \<in> set (tails s ps) then [s]
                       else map (\<lambda>k. s @ ''/'' @ k) (tree_order (tails s ps)))
                 (firsts (map first_seg ps))"
    by (intro map_cong refl) blast
  then show ?case
    by (subst tree_order.simps, subst (2) tree_order.simps) (simp only: F)
qed

lemma tree_order_paths:
  fixes ops :: "(string \<times> 'a pyval) list"
  shows "map fst ops = ps \<Longrightarrow> good ops \<Longrightarrow>
         set (tree_order ps) = set ps \<and> distinct (tree_order ps)"
proof (induction ps arbitrary: ops rule: tree_order.induct)
  case (1 ps)
  note ps = "1.prems"(1) and g = "1.prems"(2)
  let ?F = "firsts (map first_seg ps)"
  let ?g = "\<lambda>s. if [] \<in> set (tails s ps) then [s]
                 else map (\<lambda>k. s @ ''/'' @ k) (tree_order (tails s ps))"
  have inops: "p \<in> fst ` set ops" if "p \<in> set ps" for p using that ps by force
  have wf: "\<not> ends_with_slash p" if "p \<in> set ps" for p
    using inops[OF that] g by (auto simp: good_def)
  have grp: "set (?g s) = {p \<in> set ps. first_seg p = s} \<and> distinct (?g s)"
    if s: "s \<in> set ?F" for s
  proof (cases "[] \<in> set (tails s ps)")
    case True
    then obtain p0 where p0: "p0 \<in> set ps" "first_seg p0 = s" "rest_of p0 = []"
      using in_tails[of "[]" s ps] by blast
    from rest_empty_wf[OF wf[OF p0(1)] p0(3)] p0(2) have e0: "p0 = s" by simp
    have "p = s" if p: "p \<in> set ps" "first_seg p = s" for p
    proof (cases "rest_of p = []")
      case True
      from rest_empty_wf[OF wf[OF p(1)] True] p(2) show ?thesis by simp
    next
      case False
      from rest_nonempty_recompose[OF False] p(2) have "p = s @ CHR ''/'' # rest_of p" by simp
      then have "prefix (p0 @ ''/'') p" unfolding e0 by (metis append.assoc append_Cons append_Nil prefixI)
      with good_no_extension[OF g inops[OF p0(1)] inops[OF p(1)]] show ?thesis by simp
    qed
    with p0 e0 have "{p \<in> set ps. first_seg p = s} = {s}" by auto
    with True show ?thesis by simp
  next
    case False
    have m: "map fst (rests s ops) = tails s ps" unfolding tails_rests ps ..
    from "1.IH"[OF s False m good_rests[OF g]]
    have st: "set (tree_order (tails s ps)) = set (tails s ps)"
      and di: "distinct (tree_order (tails s ps))" by simp_all
    have "(\<lambda>k. s @ ''/'' @ k) ` set (tails s ps) = {p \<in> set ps. first_seg p = s}"
    proof (intro set_eqI iffI)
      fix p assume "p \<in> (\<lambda>k. s @ ''/'' @ k) ` set (tails s ps)"
      then obtain q where q: "q \<in> set ps" "first_seg q = s" "p = s @ ''/'' @ rest_of q"
        using in_tails[of _ s ps] by auto
      from q(1,2) False have "rest_of q \<noteq> []" using in_tails[of "[]" s ps] by auto
      from rest_nonempty_recompose[OF this] q(2,3) have "p = q" by simp
      with q show "p \<in> {p \<in> set ps. first_seg p = s}" by simp
    next
      fix p assume "p \<in> {p \<in> set ps. first_seg p = s}"
      then have p: "p \<in> set ps" "first_seg p = s" by simp_all
      with False have "rest_of p \<noteq> []" using in_tails[of "[]" s ps] by auto
      from rest_nonempty_recompose[OF this] p(2) have "p = s @ ''/'' @ rest_of p" by simp
      moreover have "rest_of p \<in> set (tails s ps)" using p in_tails[of "rest_of p" s ps] by blast
      ultimately show "p \<in> (\<lambda>k. s @ ''/'' @ k) ` set (tails s ps)" by blast
    qed
    moreover have "distinct (map (\<lambda>k. s @ ''/'' @ k) (tree_order (tails s ps)))"
      using di by (simp add: distinct_map inj_on_def)
    ultimately show ?thesis using False st by simp
  qed
  have "set (concat (map ?g ?F)) = set ps"
  proof -
    have "set (concat (map ?g ?F)) = (\<Union>s\<in>set ?F. set (?g s))"
      unfolding set_concat set_map image_image ..
    also have "\<dots> = (\<Union>s\<in>set ?F. {p \<in> set ps. first_seg p = s})"
      using grp by (intro SUP_cong refl) blast
    also have "\<dots> = set ps" by auto
    finally show ?thesis .
  qed
  moreover have "distinct (concat (map ?g ?F))"
  proof (rule distinct_concat_tagged[where h = first_seg])
    show "distinct ?F" by simp
    show "distinct (?g s)" if "s \<in> set ?F" for s using grp[OF that] by blast
    show "first_seg k = s" if "s \<in> set ?F" "k \<in> set (?g s)" for s k
      using grp[OF that(1)] that(2) by blast
  qed
  ultimately show ?case by (subst tree_order.simps, subst tree_order.simps) simp
qed

lemma good_again:
  "good ops \<Longrightarrow> p \<in> fst ` set ops \<Longrightarrow> is_leaf v \<Longrightarrow> good (ops @ [(p, v)])"
  unfolding good_def by (auto simp: image_iff)

text \<open>
  C5 (as stated): after any run of assignments with distinct paths on an empty
  \<open>NestedDict\<close>, \<open>get(path_i)\<close> returns \<open>value_i\<close> and \<open>keys()\<close> yields the paths in
  first-set order. After the assignments to \<open>a/x\<close>, \<open>b\<close> and \<open>a/y\<close>, in this order,
  \<open>keys()\<close> yields \<open>a/x\<close>, \<open>a/y\<close>, \<open>b\<close>: a path joins the sub-tree of its first
  segment, before the paths set earlier under later segments. And with the distinct paths
  \<open>a\<close> and \<open>a/b\<close>, the second assignment raises \<open>TypeError\<close>, and so does
  \<open>get('a/b')\<close> afterwards.
\<close>

theorem setitems_keys_not_in_first_set_order:
  "setitems ([] :: unit pyval dict) [(''a/x'', PyInt 1), (''b'', PyInt 2), (''a/y'', PyInt 3)]
     = ([(''a'', NestedDict [(''x'', PyInt 1), (''y'', PyInt 3)]), (''b'', PyInt 2)], None)
   \<and> keys [(''a'', NestedDict [(''x'', PyInt 1 :: unit pyval), (''y'', PyInt 3)]), (''b'', PyInt 2)]
     = [''a/x'', ''a/y'', ''b'']
   \<and> setitems ([] :: unit pyval dict) [(''a'', PyInt 1), (''a/b'', PyInt 2)]
     = ([(''a'', PyInt 1)], Some TypeError)
   \<and> getitem not_subscriptable [(''a'', PyInt 1 :: unit pyval)] ''a/b'' = Inl TypeError"
  by (simp add: setitem.simps getitem.simps dict_contains_def dict_getitem_def dict_setitem_def)

text \<open>
  C5 (amended): take a run of assignments on an empty \<open>NestedDict\<close> in which the values
  are leaves, no path ends in \<open>/\<close> and no path runs through another. Then every
  assignment succeeds; \<open>get(p)\<close> returns the value last assigned to \<open>p\<close>, for every
  path of the run; \<open>keys()\<close> yields exactly the paths of the run, each once, in tree
  order: grouped by first segment, the groups in the order in which their segments first
  appear, and so on within each group; and assigning a leaf to a path of the run once
  more succeeds, is seen by \<open>get\<close>, and leaves what \<open>keys()\<close> yields, order included, as
  it was.
\<close>

theorem setitems_round_trip:
  "good ops \<Longrightarrow>
   \<exists>d. setitems [] ops = (d, None)
     \<and> (\<forall>p v. last_set ops p = Some v \<longrightarrow> getitem obj_getitem d p = Inr v)
     \<and> set (keys d) = fst ` set ops \<and> distinct (keys d)
     \<and> keys d = tree_order (map fst ops)
     \<and> (\<forall>p\<in>fst ` set ops. \<forall>v. is_leaf v \<longrightarrow>
          (\<exists>d'. setitem d p v = (d', None) \<and> keys d' = keys d
                \<and> getitem obj_getitem d' p = Inr v))"
proof -
  assume g: "good ops"
  from rep_setitems[OF g] obtain d where d: "setitems [] ops = (d, None)" and r: "rep d ops"
    by blast
  have get: "getitem obj_getitem d p = Inr v" if "last_set ops p = Some v" for p v
    using rep_getitem[OF r g that] .
  have k: "keys d = tree_order (map fst ops)" using rep_keys_tree_order[OF r] .
  from tree_order_paths[OF refl g] have s: "set (keys d) = fst ` set ops" "distinct (keys d)"
    unfolding k by simp_all
  have again: "\<exists>d'. setitem d p v = (d', None) \<and> keys d' = keys d
                   \<and> getitem obj_getitem d' p = Inr v"
    if p: "p \<in> fst ` set ops" and v: "is_leaf v" for p v
  proof -
    have g': "good (ops @ [(p, v)])" using good_again[OF g p v] .
    from rep_step[OF r g'] obtain d' where
      d': "setitem d p v = (d', None)" and r': "rep d' (ops @ [(p, v)])" by blast
    have "p \<in> set (map fst ops)" using p by simp
    then have "keys d' = keys d"
      unfolding k rep_keys_tree_order[OF r'] by (simp add: tree_order_again)
    moreover have "getitem obj_getitem d' p = Inr v"
      using rep_getitem[OF r' g', of p v] by simp
    ultimately show ?thesis using d' by blast
  qed
  from d get s k again show ?thesis by blast
qed

theorem setitems_round_trip_witness:
  "good [(''a/x'', PyInt 1 :: unit pyval), (''b'', PyInt 2), (''a/y'', PyInt 3), (''a/x'', PyInt 4)]
   \<and> setitems [] [(''a/x'', PyInt 1 :: unit pyval), (''b'', PyInt 2), (''a/y'', PyInt 3),
                   (''a/x'', PyInt 4)]
       = ([(''a'', NestedDict [(''x'', PyInt 4), (''y'', PyInt 3)]), (''b'', PyInt 2)], None)
   \<and> getitem not_subscriptable
        [(''a'', NestedDict [(''x'', PyInt 4 :: unit pyval), (''y'', PyInt 3)]), (''b'', PyInt 2)]
        ''a/x'' = Inr (PyInt 4)
   \<and> tree_order [''a/x'', ''b'', ''a/y'', ''a/x''] = [''a/x'', ''a/y'', ''b'']"
proof -
  let ?ops = "[(''a/x'', PyInt 1 :: unit pyval), (''b'', PyInt 2), (''a/y'', PyInt 3),
               (''a/x'', PyInt 4)]"
  let ?d = "[(''a'', NestedDict [(''x'', PyInt 4 :: unit pyval), (''y'', PyInt 3)]),
             (''b'', PyInt 2)]"
  have g: "good ?ops"
    by (simp add: good_def ends_with_slash_def)
  have s: "setitems [] ?ops = (?d, None)"
    by (simp add: setitem.simps dict_contains_def dict_getitem_def dict_setitem_def)
  have l: "last_set ?ops ''a/x'' = Some (PyInt 4)"
    by (simp add: last_set_def)
  from setitems_round_trip[OF g, of not_subscriptable] s l
  have "getitem not_subscriptable ?d ''a/x'' = Inr (PyInt 4)"
    and "keys ?d = tree_order (map fst ?ops)"
    by auto
  with g s show ?thesis by simp
qed


section \<open>Properties of struct\_as\_dict\<close>

lemma loop_stops:
  "struct_as_dict_loop og (pre @ (k, MaskedConstant) # post) types retval
     = struct_as_dict_loop og pre types retval"
proof (induction pre arbitrary: retval)
  case Nil
  show ?case by simp
next
  case (Cons a pre)
  obtain n f where a: "a = (n, f)" by (cases a)
  show ?case
    by (cases f) (simp_all add: a Cons split: sum.splits)
qed

lemma loop_keys:
  "struct_as_dict_loop og fs types retval = Inr r \<Longrightarrow> \<forall>f\<in>set fs. snd f \<noteq> MaskedConstant \<Longrightarrow>
   set (map fst r) = set (map fst retval) \<union> set (map fst fs)"
proof (induction fs arbitrary: retval)
  case Nil
  then show ?case by simp
next
  case (Cons a fs)
  obtain n f where a: "a = (n, f)" by (cases a)
  from Cons.prems Cons.IH show ?case
    by (cases f) (auto simp: a dict_setitem_def dom_update image_iff split: sum.splits if_splits)
qed

lemma loop_returns:
  "matches og fs types \<Longrightarrow> \<exists>r. struct_as_dict_loop og fs types retval = Inr r"
proof (induction og fs types retval rule: struct_as_dict_loop.induct)
  case (1 og types retval)
  show ?case by simp
next
  case (2 og k fs types retval)
  show ?case by simp
next
  case (3 og k sub fs types retval)
  from "3.prems" obtain t where t: "py_getitem og types k = Inr t"
    and ms: "matches og sub t" and mf: "matches og fs types"
    by (auto split: sum.splits)
  from "3.IH"(1)[OF t ms] obtain subdata where
    sd: "struct_as_dict_loop og sub t [] = Inr subdata" by blast
  from "3.IH"(2)[OF t sd mf] show ?case using t sd by simp
next
  case (4 og k x fs types retval)
  from "4.prems" obtain t where t: "py_getitem og types k = Inr t"
    and c: "get_origin_is_list t \<or> (\<exists>y. py_call t x = Inr y)"
    and mf: "matches og fs types"
    by (auto split: sum.splits)
  show ?case
  proof (cases "get_origin_is_list t")
    case True
    from "4.IH"(1)[OF t True mf] show ?thesis using t True by simp
  next
    case False
    with c obtain y where y: "py_call t x = Inr y" by blast
    from "4.IH"(2)[OF t False y mf] show ?thesis using t False y by simp
  qed
qed

lemma mvoid_append:
  "mvoid (pre @ (k, c) # post) = mvoid pre @ (k, mvoid_getitem c) # mvoid post"
  by (simp add: mvoid_def)

lemma mvoid_names: "map fst (mvoid cells) = map fst cells"
  by (induction cells) (auto simp: mvoid_def)

lemma mvoid_getitem_masked:
  "mvoid_getitem c = MaskedConstant \<longleftrightarrow>
     (case c of SubArray xs ms \<Rightarrow> False | _ \<Rightarrow> any_masked c)"
  by (cases c) simp_all

text \<open>
  C8 (as stated): for every structured record, \<open>struct_as_dict\<close> returns the partial
  dictionary at the first field whose mask marks it fully absent, and a field that is not
  fully absent does not stop it. The code tests what the field reads as, not its mask. In
  the record (\<open>x\<close> populated, \<open>y\<close> a sub-array with every element masked, \<open>z\<close>
  populated) the field \<open>y\<close> has no data, yet it reads as a masked array and the result
  has all of \<open>x\<close>, \<open>y\<close> and \<open>z\<close>. In the record (\<open>x\<close> populated, \<open>y\<close> a nested
  record with \<open>p\<close> masked and \<open>q\<close> populated, \<open>z\<close> populated) the field \<open>y\<close> has
  data, yet it reads as \<open>masked\<close> and the result has \<open>x\<close> only.
\<close>

theorem struct_as_dict_tests_the_read_not_the_mask:
  "\<not> has_data (SubArray [2, 3] [True, True] :: int cell)
   \<and> struct_as_dict not_subscriptable
        (mvoid [(''x'', Scalar 1 False), (''y'', SubArray [2, 3] [True, True]),
                (''z'', Scalar 4 False)])
        (NestedDict [(''x'', PyObj (Callable scalar_to_int)), (''y'', PyObj ListAlias),
                     (''z'', PyObj (Callable scalar_to_int))])
       = Inr [(''x'', Converted 1), (''y'', Raw (MaskedArray [2, 3] [True, True])),
              (''z'', Converted 4)]
   \<and> has_data (Record [(''p'', Scalar 2 True), (''q'', Scalar 3 False)] :: int cell)
   \<and> struct_as_dict not_subscriptable
        (mvoid [(''x'', Scalar 1 False),
                (''y'', Record [(''p'', Scalar 2 True), (''q'', Scalar 3 False)]),
                (''z'', Scalar 4 False)])
        (NestedDict [(''x'', PyObj (Callable scalar_to_int)),
                     (''y'', NestedDict [(''p'', PyObj (Callable scalar_to_int)),
                                         (''q'', PyObj (Callable scalar_to_int))]),
                     (''z'', PyObj (Callable scalar_to_int))])
       = Inr [(''x'', Converted 1)]"
  by (simp add: struct_as_dict_def mvoid_def getitem.simps dict_getitem_def dict_setitem_def)

text \<open>
  C8 (amended): \<open>struct_as_dict\<close> visits the fields of a masked record in declared order
  and returns the partial dictionary built so far at the first field that reads as numpy's
  \<open>masked\<close> constant. A field reads so when it is a scalar whose mask bit is set, or a
  nested record with at least one mask bit set; a sub-array field never does. The fields
  after such a field have no influence on the result: it is the result for the fields
  before it alone. When none of these reads as \<open>masked\<close> and the template matches them,
  the call does return a dictionary, and its keys are exactly their names, so that the
  later fields are excluded even when they are populated.
\<close>

theorem struct_as_dict_stops_at_first_masked:
  "(mvoid_getitem c = MaskedConstant \<longleftrightarrow>
      (case c of SubArray xs ms \<Rightarrow> False | _ \<Rightarrow> any_masked c))
   \<and> (mvoid_getitem c = MaskedConstant \<longrightarrow>
        struct_as_dict og (mvoid (pre @ (k, c) # post)) types
          = struct_as_dict og (mvoid pre) types
        \<and> ((\<forall>f\<in>set pre. mvoid_getitem (snd f) \<noteq> MaskedConstant) \<and> matches og (mvoid pre) types
             \<longrightarrow> (\<exists>r. struct_as_dict og (mvoid (pre @ (k, c) # post)) types = Inr r
                      \<and> set (map fst r) = set (map fst pre))))"
proof -
  have stop: "struct_as_dict og (mvoid (pre @ (k, c) # post)) types
                = struct_as_dict og (mvoid pre) types"
    if "mvoid_getitem c = MaskedConstant"
    using that by (simp add: struct_as_dict_def mvoid_append loop_stops)
  have ret: "\<exists>r. struct_as_dict og (mvoid (pre @ (k, c) # post)) types = Inr r
                \<and> set (map fst r) = set (map fst pre)"
    if m: "mvoid_getitem c = MaskedConstant"
      and n: "\<forall>f\<in>set pre. mvoid_getitem (snd f) \<noteq> MaskedConstant"
      and t: "matches og (mvoid pre) types"
  proof -
    from loop_returns[OF t, of "[]"] obtain r where
      r: "struct_as_dict_loop og (mvoid pre) types [] = Inr r" by blast
    from n have n': "\<forall>f\<in>set (mvoid pre). snd f \<noteq> MaskedConstant"
      by (auto simp: mvoid_def)
    from loop_keys[OF r n'] have "set (map fst r) = set (map fst pre)"
      by (simp add: mvoid_names del: set_map)
    with stop[OF m] r show ?thesis by (simp add: struct_as_dict_def)
  qed
  from stop ret mvoid_getitem_masked[of c] show ?thesis by blast
qed

theorem struct_as_dict_stops_at_first_masked_witness:
  "mvoid_getitem (Scalar (2::int) True) = MaskedConstant
   \<and> struct_as_dict not_subscriptable
        (mvoid [(''x'', Scalar 1 False), (''y'', Scalar 2 True), (''z'', Scalar 3 False)])
        (NestedDict [(''x'', PyObj (Callable scalar_to_int)),
                     (''y'', PyObj (Callable scalar_to_int)),
                     (''z'', PyObj (Callable scalar_to_int))])
       = Inr [(''x'', Converted 1)]
   \<and> struct_as_dict not_subscriptable (mvoid [(''x'', Scalar 1 False)])
        (NestedDict [(''x'', PyObj (Callable scalar_to_int)),
                     (''y'', PyObj (Callable scalar_to_int)),
                     (''z'', PyObj (Callable scalar_to_int))])
       = Inr [(''x'', Converted 1)]"
proof -
  let ?t = "NestedDict [(''x'', PyObj (Callable scalar_to_int)),
                        (''y'', PyObj (Callable scalar_to_int)),
                        (''z'', PyObj (Callable scalar_to_int))]"
  have m: "mvoid_getitem (Scalar (2::int) True) = MaskedConstant" by simp
  have n: "\<forall>f\<in>set [(''x'', Scalar (1::int) False)]. mvoid_getitem (snd f) \<noteq> MaskedConstant"
    by simp
  have t: "matches not_subscriptable (mvoid [(''x'', Scalar (1::int) False)]) ?t"
    by (simp add: mvoid_def getitem.simps dict_getitem_def)
  from struct_as_dict_stops_at_first_masked
         [of "Scalar 2 True" not_subscriptable "[(''x'', Scalar 1 False)]" "''y''"
             "[(''z'', Scalar 3 False)]" ?t]
       m n t
  show ?thesis
    by (simp add: struct_as_dict_def mvoid_def getitem.simps dict_getitem_def dict_setitem_def)
qed


end
